theory Spec2Isabelle
  imports Main "HOL-Library.Word" "HOL-Library.Multiset"
begin

section \<open>The code-breaking game of hirn.c\<close>

text \<open>
  A shallow embedding of the game logic of \<^verbatim>\<open>src/hirn.c\<close>: the secret generator, the
  guess checks, the two-pass scorer inside \<^verbatim>\<open>evaluate_guess\<close>, and the event handling
  and time check of the main loop of \<^verbatim>\<open>hirn_main\<close>.  Drawing code is left out.
\<close>

subsection \<open>Compile-time constants\<close>

text \<open>
  The \<^verbatim>\<open>#define\<close>d constants that the game logic reads are the fields of a
  configuration, so that a property can be stated for every choice of them.  The file
  holds two releases, v0.2 first and v0.1 after it.  The model follows v0.2, whose
  constants are \<open>hirn_v02\<close>.  The scorer, the generator, the guess checks and the time
  check of v0.1 are the same code with four colours, 99 attempts and 90 minutes; its OK
  handler has no branch for the won and the lost state.
\<close>

record config =
  COLOR_REPEAT :: bool
  NUM_COLORS :: nat
  NUM_PEGS :: nat
  MAX_ATTEMPTS :: nat
  MAX_TIME_MS :: "32 word"

definition hirn_v02 :: config where
  "hirn_v02 = \<lparr>COLOR_REPEAT = False, NUM_COLORS = 6, NUM_PEGS = 4,
               MAX_ATTEMPTS = 20, MAX_TIME_MS = 1200000\<rparr>"

subsection \<open>Enumerations and the application state\<close>

text \<open>
  \<^verbatim>\<open>PegColor\<close> is a C enumeration that the code also computes with
  (\<^verbatim>\<open>rand() % NUM_COLORS + 1\<close>, \<^verbatim>\<open>current++\<close>), so a colour is its number.
  The fields \<^verbatim>\<open>cursor_position\<close> and \<^verbatim>\<open>attempts_used\<close> are \<^verbatim>\<open>int\<close>s that the code only
  counts up from 0 and, for the cursor, down while positive; they are natural numbers
  here.  The two times are \<^verbatim>\<open>uint32_t\<close> and wrap around.
\<close>

type_synonym PegColor = nat

definition COLOR_NONE :: PegColor where "COLOR_NONE = 0"
definition COLOR_RED :: PegColor where "COLOR_RED = 1"
definition COLOR_GREEN :: PegColor where "COLOR_GREEN = 2"
definition COLOR_BLUE :: PegColor where "COLOR_BLUE = 3"
definition COLOR_YELLOW :: PegColor where "COLOR_YELLOW = 4"
definition COLOR_PURPLE :: PegColor where "COLOR_PURPLE = 5"
definition COLOR_ORANGE :: PegColor where "COLOR_ORANGE = 6"

datatype FeedbackType = FEEDBACK_NONE | FEEDBACK_BLACK | FEEDBACK_WHITE

datatype GameState = STATE_PLAYING | STATE_PAUSED | STATE_WON | STATE_LOST | STATE_REVEAL

record CodeBreakerState =
  state :: GameState
  secret_code :: "PegColor list"
  current_guess :: "PegColor list"
  cursor_position :: nat
  attempts_used :: nat
  start_time :: "32 word"
  elapsed_time :: "32 word"
  guess_history :: "PegColor list list"
  feedback_history :: "FeedbackType list list"

text \<open>
  The arrays of the C struct have fixed sizes; a list models an array only when it has
  that size.
\<close>

definition sized_state :: "config \<Rightarrow> CodeBreakerState \<Rightarrow> bool" where
  "sized_state cfg st \<longleftrightarrow>
     length (secret_code st) = NUM_PEGS cfg \<and>
     length (current_guess st) = NUM_PEGS cfg \<and>
     length (guess_history st) = MAX_ATTEMPTS cfg \<and>
     length (feedback_history st) = MAX_ATTEMPTS cfg \<and>
     list_all (\<lambda>row. length row = NUM_PEGS cfg) (guess_history st) \<and>
     list_all (\<lambda>row. length row = NUM_PEGS cfg) (feedback_history st)"

subsection \<open>Faults\<close>

text \<open>
  What C leaves undefined or what never returns is a value of the model: a store beyond
  the end of an array, and a loop that never ends.
\<close>

datatype fault = OutOfBounds | NeverReturns

definition store :: "'a list \<Rightarrow> nat \<Rightarrow> 'a \<Rightarrow> fault + 'a list" where
  "store xs i v = (if i < length xs then Inr (xs[i := v]) else Inl OutOfBounds)"

text \<open>A \<^verbatim>\<open>for\<close> loop over the given indices whose body may fault.\<close>

fun for_loop :: "nat list \<Rightarrow> (nat \<Rightarrow> 'a \<Rightarrow> fault + 'a) \<Rightarrow> 'a \<Rightarrow> fault + 'a" where
  "for_loop [] body a = Inr a"
| "for_loop (i # is) body a =
     (case body i a of Inl e \<Rightarrow> Inl e | Inr a' \<Rightarrow> for_loop is body a')"

subsection \<open>The guess checks\<close>

definition is_guess_complete :: "config \<Rightarrow> CodeBreakerState \<Rightarrow> bool" where
  "is_guess_complete cfg st =
     list_all (\<lambda>i. current_guess st ! i \<noteq> COLOR_NONE) [0..<NUM_PEGS cfg]"

definition is_guess_different :: "config \<Rightarrow> CodeBreakerState \<Rightarrow> bool" where
  "is_guess_different cfg st =
     (if attempts_used st = 0 then True
      else list_ex (\<lambda>i. current_guess st ! i \<noteq> guess_history st ! (attempts_used st - 1) ! i)
             [0..<NUM_PEGS cfg])"

subsection \<open>The scorer: the two passes of evaluate_guess\<close>

text \<open>
  The local variables of the two passes, and the feedback row
  \<^verbatim>\<open>feedback_history[attempts_used]\<close> that they fill.
\<close>

record scoring =
  feedback :: "FeedbackType list"
  feedback_idx :: nat
  secret_used :: "bool list"
  guess_used :: "bool list"

definition scoring_init :: "config \<Rightarrow> scoring" where
  "scoring_init cfg =
     \<lparr>feedback = replicate (NUM_PEGS cfg) FEEDBACK_NONE, feedback_idx = 0,
      secret_used = replicate (NUM_PEGS cfg) False,
      guess_used = replicate (NUM_PEGS cfg) False\<rparr>"

definition first_pass_body ::
  "PegColor list \<Rightarrow> PegColor list \<Rightarrow> nat \<Rightarrow> scoring \<Rightarrow> fault + scoring" where
  "first_pass_body guess secret i a =
     (if guess ! i = secret ! i then
        (case store (feedback a) (feedback_idx a) FEEDBACK_BLACK of
           Inl e \<Rightarrow> Inl e
         | Inr row \<Rightarrow>
             Inr (a\<lparr>feedback := row, feedback_idx := feedback_idx a + 1,
                    secret_used := (secret_used a)[i := True],
                    guess_used := (guess_used a)[i := True]\<rparr>))
      else Inr a)"

text \<open>
  The inner loop of the second pass: the first \<^verbatim>\<open>j\<close> at which it breaks, if any.
\<close>

fun inner_loop :: "nat list \<Rightarrow> PegColor \<Rightarrow> PegColor list \<Rightarrow> bool list \<Rightarrow> nat option" where
  "inner_loop [] c secret used = None"
| "inner_loop (j # js) c secret used =
     (if \<not> used ! j \<and> c = secret ! j then Some j else inner_loop js c secret used)"

definition second_pass_body ::
  "config \<Rightarrow> PegColor list \<Rightarrow> PegColor list \<Rightarrow> nat \<Rightarrow> scoring \<Rightarrow> fault + scoring" where
  "second_pass_body cfg guess secret i a =
     (if \<not> guess_used a ! i then
        (case inner_loop [0..<NUM_PEGS cfg] (guess ! i) secret (secret_used a) of
           None \<Rightarrow> Inr a
         | Some j \<Rightarrow>
             (case store (feedback a) (feedback_idx a) FEEDBACK_WHITE of
                Inl e \<Rightarrow> Inl e
              | Inr row \<Rightarrow>
                  Inr (a\<lparr>feedback := row, feedback_idx := feedback_idx a + 1,
                         secret_used := (secret_used a)[j := True]\<rparr>)))
      else Inr a)"

definition first_pass :: "config \<Rightarrow> PegColor list \<Rightarrow> PegColor list \<Rightarrow> fault + scoring" where
  "first_pass cfg guess secret =
     for_loop [0..<NUM_PEGS cfg] (first_pass_body guess secret) (scoring_init cfg)"

definition score :: "config \<Rightarrow> PegColor list \<Rightarrow> PegColor list \<Rightarrow> fault + scoring" where
  "score cfg guess secret =
     (case first_pass cfg guess secret of
        Inl e \<Rightarrow> Inl e
      | Inr a \<Rightarrow> for_loop [0..<NUM_PEGS cfg] (second_pass_body cfg guess secret) a)"

definition black :: "FeedbackType list \<Rightarrow> nat" where
  "black row = count_list row FEEDBACK_BLACK"

definition white :: "FeedbackType list \<Rightarrow> nat" where
  "white row = count_list row FEEDBACK_WHITE"

subsection \<open>evaluate_guess\<close>

definition evaluate_guess ::
  "config \<Rightarrow> 32 word \<Rightarrow> CodeBreakerState \<Rightarrow> fault + CodeBreakerState" where
  "evaluate_guess cfg tick st =
     (if MAX_ATTEMPTS cfg \<le> attempts_used st then Inl OutOfBounds
      else
        (case score cfg (current_guess st) (secret_code st) of
           Inl e \<Rightarrow> Inl e
         | Inr a \<Rightarrow>
             (let won = list_all (\<lambda>i. current_guess st ! i = secret_code st ! i)
                          [0..<NUM_PEGS cfg];
                  st1 = st\<lparr>feedback_history :=
                             (feedback_history st)[attempts_used st := feedback a],
                           guess_history :=
                             (guess_history st)[attempts_used st := current_guess st],
                           attempts_used := attempts_used st + 1\<rparr>
              in if won then
                   Inr (st1\<lparr>state := STATE_WON,
                            elapsed_time := elapsed_time st1 + (tick - start_time st1)\<rparr>)
                 else if MAX_ATTEMPTS cfg \<le> attempts_used st1 then
                   Inr (st1\<lparr>state := STATE_LOST,
                            elapsed_time := elapsed_time st1 + (tick - start_time st1)\<rparr>)
                 else Inr st1)))"

subsection \<open>The secret generator\<close>

text \<open>
  \<^verbatim>\<open>rand()\<close> is an outside source: \<open>rnd k\<close> is the value of the \<open>k\<close>-th call.  The
  \<^verbatim>\<open>do ... while(used[color])\<close> loop ends only when a call yields a colour not yet used, so
  it is a partial function: \<open>None\<close> says that the loop never ends.
\<close>

partial_function (option) draw_unused ::
  "nat \<Rightarrow> (nat \<Rightarrow> nat) \<Rightarrow> bool list \<Rightarrow> nat \<Rightarrow> (PegColor \<times> nat) option" where
  "draw_unused n rnd used k =
     (let color = rnd k mod n + 1
      in if used ! color then draw_unused n rnd used (Suc k) else Some (color, Suc k))"

fun no_repeat_loop ::
  "nat list \<Rightarrow> nat \<Rightarrow> (nat \<Rightarrow> nat) \<Rightarrow> bool list \<Rightarrow> PegColor list \<Rightarrow> nat
     \<Rightarrow> (PegColor list \<times> nat) option" where
  "no_repeat_loop [] n rnd used code k = Some (code, k)"
| "no_repeat_loop (i # is) n rnd used code k =
     (case draw_unused n rnd used k of
        None \<Rightarrow> None
      | Some (color, k') \<Rightarrow>
          no_repeat_loop is n rnd (used[color := True]) (code[i := color]) k')"

fun repeat_loop ::
  "nat list \<Rightarrow> nat \<Rightarrow> (nat \<Rightarrow> nat) \<Rightarrow> PegColor list \<Rightarrow> nat \<Rightarrow> PegColor list \<times> nat" where
  "repeat_loop [] n rnd code k = (code, k)"
| "repeat_loop (i # is) n rnd code k =
     repeat_loop is n rnd (code[i := rnd k mod n + 1]) (Suc k)"

definition generate_secret_code ::
  "config \<Rightarrow> (nat \<Rightarrow> nat) \<Rightarrow> CodeBreakerState \<Rightarrow> CodeBreakerState option" where
  "generate_secret_code cfg rnd st =
     (if COLOR_REPEAT cfg then
        Some (st\<lparr>secret_code :=
                   fst (repeat_loop [0..<NUM_PEGS cfg] (NUM_COLORS cfg) rnd (secret_code st) 0)\<rparr>)
      else
        (case no_repeat_loop [0..<NUM_PEGS cfg] (NUM_COLORS cfg) rnd
                (replicate (NUM_COLORS cfg + 1) False) (secret_code st) 0 of
           None \<Rightarrow> None
         | Some (code, k) \<Rightarrow> Some (st\<lparr>secret_code := code\<rparr>)))"

subsection \<open>The main loop of hirn_main\<close>

text \<open>
  The input events come from the header \<^verbatim>\<open>input/input.h\<close> of the firmware, which is not
  part of the repository; the two enumerations list its event types and keys.
\<close>

datatype InputType =
  InputTypePress | InputTypeRelease | InputTypeShort | InputTypeLong | InputTypeRepeat

datatype InputKey =
  InputKeyUp | InputKeyDown | InputKeyRight | InputKeyLeft | InputKeyOk | InputKeyBack

record InputEvent =
  type :: InputType
  key :: InputKey

text \<open>
  The state that \<^verbatim>\<open>hirn_main\<close> sets up before the loop: the zeroed allocation, the first
  fields, the empty guess and the secret.  \<open>tick\<close> is the value of \<^verbatim>\<open>furi_get_tick()\<close>.
  The assignments are those of the reset branch of the OK handler, on the zeroed state, so
  both are \<open>new_round\<close>.  A generator that does not return is the fault \<open>NeverReturns\<close>.
\<close>

definition zeroed :: "config \<Rightarrow> CodeBreakerState" where
  "zeroed cfg =
     \<lparr>state = STATE_PLAYING,
      secret_code = replicate (NUM_PEGS cfg) COLOR_NONE,
      current_guess = replicate (NUM_PEGS cfg) COLOR_NONE,
      cursor_position = 0, attempts_used = 0, start_time = 0, elapsed_time = 0,
      guess_history = replicate (MAX_ATTEMPTS cfg) (replicate (NUM_PEGS cfg) COLOR_NONE),
      feedback_history = replicate (MAX_ATTEMPTS cfg) (replicate (NUM_PEGS cfg) FEEDBACK_NONE)\<rparr>"

definition new_round ::
  "config \<Rightarrow> 32 word \<Rightarrow> (nat \<Rightarrow> nat) \<Rightarrow> CodeBreakerState \<Rightarrow> fault + CodeBreakerState" where
  "new_round cfg tick rnd st =
     (case generate_secret_code cfg rnd
             (st\<lparr>state := STATE_PLAYING, cursor_position := 0, attempts_used := 0,
                 start_time := tick, elapsed_time := 0,
                 current_guess := replicate (NUM_PEGS cfg) COLOR_NONE\<rparr>) of
        None \<Rightarrow> Inl NeverReturns
      | Some st' \<Rightarrow> Inr st')"

definition hirn_init :: "config \<Rightarrow> 32 word \<Rightarrow> (nat \<Rightarrow> nat) \<Rightarrow> fault + CodeBreakerState" where
  "hirn_init cfg tick rnd = new_round cfg tick rnd (zeroed cfg)"

text \<open>
  One input event.  The result is the \<^verbatim>\<open>running\<close> flag and the state; \<open>tick\<close> is the value
  of \<^verbatim>\<open>furi_get_tick()\<close> while the event is handled.  \<open>on_ok\<close> is the chain of branches
  under the OK key.  The Up and Down keys index the guess with the cursor, which the Left
  and Right keys keep below \<^verbatim>\<open>NUM_PEGS\<close>.
\<close>

definition on_ok ::
  "config \<Rightarrow> 32 word \<Rightarrow> (nat \<Rightarrow> nat) \<Rightarrow> CodeBreakerState \<Rightarrow> fault + CodeBreakerState" where
  "on_ok cfg tick rnd st =
     (if state st = STATE_PLAYING \<and> is_guess_complete cfg st \<and> is_guess_different cfg st then
        evaluate_guess cfg tick st
      else if state st = STATE_PAUSED then
        Inr (st\<lparr>state := STATE_PLAYING, start_time := tick\<rparr>)
      else if state st = STATE_REVEAL then
        Inr (st\<lparr>state := STATE_PLAYING, start_time := tick\<rparr>)
      else if state st = STATE_WON \<or> state st = STATE_LOST then
        new_round cfg tick rnd st
      else Inr st)"

text \<open>
  The submission taken alone: the first branch of that chain, the guard at line 515 and
  the call of \<^verbatim>\<open>evaluate_guess\<close>.  The other branches of the chain are the resume, the
  return from the reveal and the new round.
\<close>

definition submit_guess :: "config \<Rightarrow> 32 word \<Rightarrow> CodeBreakerState \<Rightarrow> fault + CodeBreakerState" where
  "submit_guess cfg tick st =
     (if state st = STATE_PLAYING \<and> is_guess_complete cfg st \<and> is_guess_different cfg st then
        evaluate_guess cfg tick st
      else Inr st)"

definition handle_event ::
  "config \<Rightarrow> InputEvent \<Rightarrow> 32 word \<Rightarrow> (nat \<Rightarrow> nat) \<Rightarrow> bool \<times> CodeBreakerState
     \<Rightarrow> fault + bool \<times> CodeBreakerState" where
  "handle_event cfg event tick rnd rs =
     (let running = fst rs; st = snd rs in
      if type event = InputTypePress \<or> type event = InputTypeRepeat then
        if key event = InputKeyBack then
          if type event = InputTypePress then
            if state st = STATE_PAUSED then Inr (False, st)
            else if state st = STATE_PLAYING then
              Inr (running, st\<lparr>state := STATE_PAUSED,
                               elapsed_time := elapsed_time st + (tick - start_time st)\<rparr>)
            else Inr (running, st)
          else Inr (running, st)
        else if key event = InputKeyLeft \<and> state st = STATE_PLAYING then
          if cursor_position st > 0 then
            Inr (running, st\<lparr>cursor_position := cursor_position st - 1\<rparr>)
          else Inr (running, st)
        else if key event = InputKeyRight \<and> state st = STATE_PLAYING then
          if int (cursor_position st) < int (NUM_PEGS cfg) - 1 then
            Inr (running, st\<lparr>cursor_position := cursor_position st + 1\<rparr>)
          else Inr (running, st)
        else if key event = InputKeyUp \<and> state st = STATE_PLAYING then
          (let current = current_guess st ! cursor_position st + 1;
               current = (if current > NUM_COLORS cfg then COLOR_NONE else current)
           in Inr (running,
                   st\<lparr>current_guess := (current_guess st)[cursor_position st := current]\<rparr>))
        else if key event = InputKeyDown \<and> state st = STATE_PLAYING then
          (let current = int (current_guess st ! cursor_position st) - 1;
               current = (if current < int COLOR_NONE then int (NUM_COLORS cfg) else current)
           in Inr (running,
                   st\<lparr>current_guess := (current_guess st)[cursor_position st := nat current]\<rparr>))
        else if key event = InputKeyOk then
          (case on_ok cfg tick rnd st of Inl e \<Rightarrow> Inl e | Inr st' \<Rightarrow> Inr (running, st'))
        else Inr (running, st)
      else if type event = InputTypeLong then
        if key event = InputKeyBack then Inr (False, st)
        else if key event = InputKeyOk then
          if state st = STATE_PLAYING then
            Inr (running, st\<lparr>elapsed_time := elapsed_time st + (tick - start_time st),
                             state := STATE_REVEAL\<rparr>)
          else if state st = STATE_REVEAL then
            Inr (running, st\<lparr>state := STATE_PLAYING, start_time := tick\<rparr>)
          else Inr (running, st)
        else Inr (running, st)
      else Inr (running, st))"

text \<open>The time check at the end of each pass through the loop.\<close>

definition check_time_limit :: "config \<Rightarrow> 32 word \<Rightarrow> CodeBreakerState \<Rightarrow> CodeBreakerState" where
  "check_time_limit cfg tick st =
     (if state st = STATE_PLAYING then
        (let current_time = elapsed_time st + (tick - start_time st)
         in if current_time \<ge> MAX_TIME_MS cfg then
              st\<lparr>state := STATE_LOST, elapsed_time := MAX_TIME_MS cfg\<rparr>
            else st)
      else st)"

text \<open>
  One pass through the loop: an event if the queue delivered one within its timeout, then
  the time check.  The two ticks are the clock values read in the two places.
\<close>

definition loop_body ::
  "config \<Rightarrow> InputEvent option \<Rightarrow> 32 word \<Rightarrow> 32 word \<Rightarrow> (nat \<Rightarrow> nat)
     \<Rightarrow> bool \<times> CodeBreakerState \<Rightarrow> fault + bool \<times> CodeBreakerState" where
  "loop_body cfg ev tick tick' rnd rs =
     (case (case ev of None \<Rightarrow> Inr rs | Some event \<Rightarrow> handle_event cfg event tick rnd rs) of
        Inl e \<Rightarrow> Inl e
      | Inr rs' \<Rightarrow> Inr (fst rs', check_time_limit cfg tick' (snd rs')))"

text \<open>
  The loop itself, over the inputs of a run: for each pass the event the queue delivered,
  if any, the two clock values and the random source.  It ends when \<^verbatim>\<open>running\<close> is false.
\<close>

fun main_loop ::
  "config \<Rightarrow> (InputEvent option \<times> 32 word \<times> 32 word \<times> (nat \<Rightarrow> nat)) list
     \<Rightarrow> bool \<times> CodeBreakerState \<Rightarrow> fault + bool \<times> CodeBreakerState" where
  "main_loop cfg [] rs = Inr rs"
| "main_loop cfg ((ev, tick, tick', rnd) # inputs) rs =
     (if fst rs then
        (case loop_body cfg ev tick tick' rnd rs of
           Inl e \<Rightarrow> Inl e
         | Inr rs' \<Rightarrow> main_loop cfg inputs rs')
      else Inr rs)"

text \<open>
  The states at the head of the loop, over every run of events, clock values and
  random numbers.  The relation puts no condition on the \<^verbatim>\<open>running\<close> flag nor on the
  order of the clock values, so it holds of every state the loop reaches, and what is
  proved of all its states is proved of those.
\<close>

inductive reachable :: "config \<Rightarrow> CodeBreakerState \<Rightarrow> bool" for cfg :: config where
  start: "hirn_init cfg tick rnd = Inr st \<Longrightarrow> reachable cfg st"
| pass: "reachable cfg st \<Longrightarrow> loop_body cfg ev tick tick' rnd (running, st) = Inr (running', st')
           \<Longrightarrow> reachable cfg st'"

text \<open>The time shown in the head-up display (\<^verbatim>\<open>draw_callback\<close>).\<close>

definition total_time :: "config \<Rightarrow> 32 word \<Rightarrow> CodeBreakerState \<Rightarrow> 32 word" where
  "total_time cfg tick st =
     (let total_time = (if state st = STATE_PLAYING
                        then elapsed_time st + (tick - start_time st)
                        else elapsed_time st)
      in if total_time > MAX_TIME_MS cfg then MAX_TIME_MS cfg else total_time)"

subsection \<open>Notions used in the statements\<close>

text \<open>
  These are not part of the program: they name what the theorems below say about it.
  \<open>matches\<close> counts the positions below \<open>n\<close> where guess and secret agree,
  \<open>exact_upto\<close> is the flag array that marks them, \<open>pegs_row\<close> a feedback row
  with its black pegs first, and \<open>unmatched\<close> the entries of an array at the
  positions where guess and secret differ.  \<open>avail\<close> and \<open>pending\<close> are the colours
  of the secret slots not yet used and of the guess slots still to be visited, and
  \<open>whites\<close> is the number of pairs that can be formed of them.
\<close>

definition matches :: "PegColor list \<Rightarrow> PegColor list \<Rightarrow> nat \<Rightarrow> nat" where
  "matches guess secret n = length (filter (\<lambda>i. guess ! i = secret ! i) [0..<n])"

definition exact_upto :: "PegColor list \<Rightarrow> PegColor list \<Rightarrow> nat \<Rightarrow> nat \<Rightarrow> bool list" where
  "exact_upto guess secret p n = map (\<lambda>i. i < n \<and> guess ! i = secret ! i) [0..<p]"

definition pegs_row :: "nat \<Rightarrow> nat \<Rightarrow> nat \<Rightarrow> FeedbackType list" where
  "pegs_row p b w =
     replicate b FEEDBACK_BLACK @ replicate w FEEDBACK_WHITE @ replicate (p - (b + w)) FEEDBACK_NONE"

definition unmatched :: "nat \<Rightarrow> PegColor list \<Rightarrow> PegColor list \<Rightarrow> PegColor list \<Rightarrow> PegColor list" where
  "unmatched p guess secret xs = map ((!) xs) (filter (\<lambda>i. guess ! i \<noteq> secret ! i) [0..<p])"

definition avail :: "PegColor list \<Rightarrow> bool list \<Rightarrow> PegColor multiset" where
  "avail secret used = image_mset ((!) secret) (mset_set {j. j < length used \<and> \<not> used ! j})"

definition pending :: "PegColor list \<Rightarrow> bool list \<Rightarrow> nat \<Rightarrow> PegColor multiset" where
  "pending guess used n =
     image_mset ((!) guess) (mset_set {i. n \<le> i \<and> i < length used \<and> \<not> used ! i})"

definition whites :: "nat \<Rightarrow> PegColor list \<Rightarrow> PegColor list \<Rightarrow> nat" where
  "whites p g s = size (pending g (exact_upto g s p p) 0 \<inter># avail s (exact_upto g s p p))"

text \<open>The recorded attempts: the rows of the two history arrays below \<^verbatim>\<open>attempts_used\<close>.\<close>

definition history :: "CodeBreakerState \<Rightarrow> (PegColor list \<times> FeedbackType list) list" where
  "history st = take (attempts_used st) (zip (guess_history st) (feedback_history st))"

text \<open>
  A random source is \<open>fair_source\<close> for \<open>n\<close> colours when every colour keeps coming: after
  every call there is a later call whose value selects it.
\<close>

definition fair_source :: "nat \<Rightarrow> (nat \<Rightarrow> nat) \<Rightarrow> bool" where
  "fair_source n rnd \<longleftrightarrow> (\<forall>k. \<forall>c<n. \<exists>j\<ge>k. rnd j mod n = c)"

text \<open>
  The configurations the program can be built for with arrays that are not empty, and what
  holds of every state at the head of the main loop.
\<close>

definition well_configured :: "config \<Rightarrow> bool" where
  "well_configured cfg \<longleftrightarrow> 0 < NUM_COLORS cfg \<and> 0 < NUM_PEGS cfg \<and> 0 < MAX_ATTEMPTS cfg"

definition game_inv :: "config \<Rightarrow> CodeBreakerState \<Rightarrow> bool" where
  "game_inv cfg st \<longleftrightarrow>
     sized_state cfg st
     \<and> cursor_position st < NUM_PEGS cfg
     \<and> attempts_used st \<le> MAX_ATTEMPTS cfg
     \<and> (state st = STATE_PLAYING \<or> state st = STATE_PAUSED \<or> state st = STATE_REVEAL
          \<longrightarrow> attempts_used st < MAX_ATTEMPTS cfg)
     \<and> (state st = STATE_WON
          \<longrightarrow> 0 < attempts_used st \<and> guess_history st ! (attempts_used st - 1) = secret_code st)
     \<and> (state st = STATE_LOST
          \<longrightarrow> attempts_used st = MAX_ATTEMPTS cfg
                \<and> guess_history st ! (attempts_used st - 1) \<noteq> secret_code st
              \<or> elapsed_time st = MAX_TIME_MS cfg)"

text \<open>
  Passes through the loop in which the queue delivers no event, the clock values of the
  time checks of a run of passes, and the condition that each of these checks finds the
  time below the limit, with \<open>elapsed\<close> on the counter and the clock started at \<open>start\<close>.
\<close>

definition idle :: "(InputEvent option \<times> 32 word \<times> 32 word \<times> (nat \<Rightarrow> nat)) list \<Rightarrow> bool" where
  "idle inputs \<longleftrightarrow> list_all (\<lambda>(ev, tick, tick', rnd). ev = None) inputs"

definition check_ticks ::
  "(InputEvent option \<times> 32 word \<times> 32 word \<times> (nat \<Rightarrow> nat)) list \<Rightarrow> 32 word list" where
  "check_ticks inputs = map (\<lambda>(ev, tick, tick', rnd). tick') inputs"

definition within_limit :: "config \<Rightarrow> 32 word \<Rightarrow> 32 word \<Rightarrow> 32 word list \<Rightarrow> bool" where
  "within_limit cfg elapsed start ticks \<longleftrightarrow>
     list_all (\<lambda>tick. elapsed + (tick - start) < MAX_TIME_MS cfg) ticks"

subsection \<open>Example games\<close>

text \<open>
  A random source that counts, \<open>0, 1, 2, \<dots>\<close>, and a key press at a clock value, with the
  time check of its pass one tick later.
\<close>

definition rand_count :: "nat \<Rightarrow> nat" where
  "rand_count k = k"

definition press :: "InputKey \<Rightarrow> 32 word \<Rightarrow> InputEvent option \<times> 32 word \<times> 32 word \<times> (nat \<Rightarrow> nat)" where
  "press k tick = (Some \<lparr>type = InputTypePress, key = k\<rparr>, tick, tick + 1, rand_count)"

text \<open>
  A game of the later release.  With the counting random source the secret is red, green,
  blue, yellow (\<open>game_start\<close>).  The first run of keys enters the guess green, red, blue,
  purple and moves the cursor back (\<open>game_guess\<close>); OK at 20 s scores it with one black
  and two white pegs (\<open>game_scored\<close>); Back at 25 s pauses the game (\<open>game_paused\<close>).
  From \<open>game_scored\<close> the second run of keys changes the guess to the secret
  (\<open>game_win\<close>), and OK at 40 s wins the game (\<open>game_won\<close>).
  \<open>game_late_pause\<close> is the game paused 20 ms after the time limit of 20 minutes.
\<close>

definition keys_first_guess :: "(InputEvent option \<times> 32 word \<times> 32 word \<times> (nat \<Rightarrow> nat)) list" where
  "keys_first_guess =
     [press InputKeyUp 1000, press InputKeyUp 2000, press InputKeyRight 3000,
      press InputKeyUp 4000, press InputKeyRight 5000,
      press InputKeyUp 6000, press InputKeyUp 7000, press InputKeyUp 8000,
      press InputKeyRight 9000, press InputKeyDown 10000, press InputKeyDown 11000,
      press InputKeyLeft 12000, press InputKeyLeft 13000, press InputKeyLeft 14000]"

definition keys_second_guess :: "(InputEvent option \<times> 32 word \<times> 32 word \<times> (nat \<Rightarrow> nat)) list" where
  "keys_second_guess =
     [press InputKeyDown 26000, press InputKeyRight 27000, press InputKeyUp 28000,
      press InputKeyRight 29000, press InputKeyRight 30000, press InputKeyDown 31000,
      press InputKeyLeft 32000, press InputKeyLeft 33000, press InputKeyLeft 34000]"

definition game_start :: CodeBreakerState where
  "game_start = (zeroed hirn_v02)\<lparr>secret_code := [1, 2, 3, 4]\<rparr>"

definition game_guess :: CodeBreakerState where
  "game_guess = game_start\<lparr>current_guess := [2, 1, 3, 5]\<rparr>"

definition game_scored :: CodeBreakerState where
  "game_scored = game_guess\<lparr>
     feedback_history := (feedback_history game_guess)
        [0 := [FEEDBACK_BLACK, FEEDBACK_WHITE, FEEDBACK_WHITE, FEEDBACK_NONE]],
     guess_history := (guess_history game_guess)[0 := [2, 1, 3, 5]],
     attempts_used := 1\<rparr>"

definition game_paused :: CodeBreakerState where
  "game_paused = game_scored\<lparr>state := STATE_PAUSED, elapsed_time := 25000\<rparr>"

definition game_win :: CodeBreakerState where
  "game_win = game_scored\<lparr>current_guess := [1, 2, 3, 4]\<rparr>"

definition game_won :: CodeBreakerState where
  "game_won = game_win\<lparr>
     feedback_history := (feedback_history game_win)
        [1 := [FEEDBACK_BLACK, FEEDBACK_BLACK, FEEDBACK_BLACK, FEEDBACK_BLACK]],
     guess_history := (guess_history game_win)[1 := [1, 2, 3, 4]],
     attempts_used := 2, state := STATE_WON, elapsed_time := 40000\<rparr>"

definition game_late_pause :: CodeBreakerState where
  "game_late_pause = game_start\<lparr>state := STATE_PAUSED, elapsed_time := 1200020\<rparr>"

text \<open>
  Two more configurations: the later release with three colours for its four pegs, and a
  game of one peg, two colours and one attempt, in which the first guess is the last
  (\<open>tiny_start\<close>, the guess entered in \<open>tiny_guess\<close>, and lost in \<open>tiny_lost\<close>).
\<close>

definition few_colours :: config where
  "few_colours = hirn_v02\<lparr>NUM_COLORS := 3\<rparr>"

definition tiny_game :: config where
  "tiny_game = \<lparr>COLOR_REPEAT = False, NUM_COLORS = 2, NUM_PEGS = 1,
                MAX_ATTEMPTS = 1, MAX_TIME_MS = 1200000\<rparr>"

definition tiny_start :: CodeBreakerState where
  "tiny_start = (zeroed tiny_game)\<lparr>secret_code := [1]\<rparr>"

definition tiny_guess :: CodeBreakerState where
  "tiny_guess = tiny_start\<lparr>current_guess := [2]\<rparr>"

definition tiny_lost :: CodeBreakerState where
  "tiny_lost = tiny_guess\<lparr>guess_history := [[2]], attempts_used := 1, state := STATE_LOST,
                          elapsed_time := 3000\<rparr>"

section \<open>Properties\<close>

subsection \<open>Loops and the scorer\<close>

lemma store_ok: "i < length xs \<Longrightarrow> store xs i v = Inr (xs[i := v])"
  by (simp add: store_def)

lemma for_loop_append:
  "for_loop (xs @ ys) body a =
     (case for_loop xs body a of Inl e \<Rightarrow> Inl e | Inr a' \<Rightarrow> for_loop ys body a')"
  by (induction xs arbitrary: a) (auto split: sum.splits)

lemma for_loop_Suc:
  "for_loop [0..<Suc n] body a =
     (case for_loop [0..<n] body a of Inl e \<Rightarrow> Inl e | Inr a' \<Rightarrow> body n a')"
  by (simp add: for_loop_append split: sum.splits)

lemma matches_0: "matches g s 0 = 0"
  by (simp add: matches_def)

lemma matches_Suc: "matches g s (Suc n) = (if g ! n = s ! n then Suc (matches g s n) else matches g s n)"
  by (simp add: matches_def)

lemma matches_le: "matches g s n \<le> n"
  by (induction n) (simp_all add: matches_0 matches_Suc)

lemma length_pegs_row: "b + w \<le> p \<Longrightarrow> length (pegs_row p b w) = p"
  by (simp add: pegs_row_def)

lemma pegs_row_black: "b < p \<Longrightarrow> (pegs_row p b 0)[b := FEEDBACK_BLACK] = pegs_row p (Suc b) 0"
proof -
  assume "b < p"
  then obtain k where k: "p - b = Suc k" "p - Suc b = k"
    by (metis Suc_diff_Suc)
  show ?thesis
    by (simp add: pegs_row_def k list_update_append replicate_append_same)
qed

lemma pegs_row_white:
  "b + w < p \<Longrightarrow> (pegs_row p b w)[b + w := FEEDBACK_WHITE] = pegs_row p b (Suc w)"
proof -
  assume "b + w < p"
  then obtain k where k: "p - (b + w) = Suc k" "p - Suc (b + w) = k"
    by (metis Suc_diff_Suc)
  show ?thesis
    by (simp add: pegs_row_def k list_update_append replicate_append_same)
qed

lemma exact_upto_0: "exact_upto g s p 0 = replicate p False"
  by (rule nth_equalityI) (simp_all add: exact_upto_def)

lemma exact_upto_Suc_match:
  "n < p \<Longrightarrow> g ! n = s ! n \<Longrightarrow> (exact_upto g s p n)[n := True] = exact_upto g s p (Suc n)"
  by (rule nth_equalityI) (auto simp: exact_upto_def nth_list_update less_Suc_eq)

lemma exact_upto_Suc_miss:
  "g ! n \<noteq> s ! n \<Longrightarrow> exact_upto g s p (Suc n) = exact_upto g s p n"
  by (auto simp: exact_upto_def less_Suc_eq)

lemma first_pass_prefix:
  "n \<le> NUM_PEGS cfg \<Longrightarrow>
   for_loop [0..<n] (first_pass_body g s) (scoring_init cfg) =
     Inr \<lparr>feedback = pegs_row (NUM_PEGS cfg) (matches g s n) 0,
          feedback_idx = matches g s n,
          secret_used = exact_upto g s (NUM_PEGS cfg) n,
          guess_used = exact_upto g s (NUM_PEGS cfg) n\<rparr>"
proof (induction n)
  case 0
  show ?case
    by (simp add: scoring_init_def matches_0 exact_upto_0 pegs_row_def)
next
  case (Suc n)
  then have n: "n < NUM_PEGS cfg" and m: "matches g s n < NUM_PEGS cfg"
    using matches_le [of g s n] by simp_all
  let ?a = "\<lparr>feedback = pegs_row (NUM_PEGS cfg) (matches g s n) 0,
          feedback_idx = matches g s n,
          secret_used = exact_upto g s (NUM_PEGS cfg) n,
          guess_used = exact_upto g s (NUM_PEGS cfg) n\<rparr>"
  have step: "for_loop [0..<Suc n] (first_pass_body g s) (scoring_init cfg) = first_pass_body g s n ?a"
    using Suc n by (simp add: for_loop_Suc del: upt_Suc)
  show ?case
  proof (cases "g ! n = s ! n")
    case True
    with n m show ?thesis
      unfolding step
      by (simp add: first_pass_body_def store_def length_pegs_row matches_Suc
          pegs_row_black exact_upto_Suc_match)
  next
    case False
    with n show ?thesis
      unfolding step
      by (simp add: first_pass_body_def matches_Suc exact_upto_Suc_miss)
  qed
qed

lemma first_pass_returns: "\<exists>a1. first_pass cfg g s = Inr a1"
  unfolding first_pass_def using first_pass_prefix [of "NUM_PEGS cfg" cfg g s] by simp

lemma inner_loop_None:
  "inner_loop js c s su = None \<longleftrightarrow> (\<forall>j\<in>set js. su ! j \<or> c \<noteq> s ! j)"
  by (induction js) auto

lemma inner_loop_Some:
  "inner_loop js c s su = Some j \<Longrightarrow> j \<in> set js \<and> \<not> su ! j \<and> c = s ! j"
  by (induction js) (auto split: if_splits)

lemma avail_take:
  assumes "j < length su" "\<not> su ! j"
  shows "avail s su = add_mset (s ! j) (avail s (su[j := True]))"
proof -
  let ?A = "{k. k < length su \<and> \<not> su ! k}"
  have "{k. k < length (su[j := True]) \<and> \<not> su[j := True] ! k} = ?A - {j}"
    using assms by (auto simp: nth_list_update)
  moreover have "mset_set ?A = add_mset j (mset_set (?A - {j}))"
    using assms by (intro mset_set.remove) auto
  ultimately show ?thesis
    by (simp add: avail_def)
qed

lemma not_in_avail:
  "length su = p \<Longrightarrow> \<forall>j\<in>set [0..<p]. su ! j \<or> c \<noteq> s ! j \<Longrightarrow> c \<notin># avail s su"
  by (auto simp: avail_def)

lemma pending_step:
  assumes "n < length gu"
  shows "pending g gu n =
           (if gu ! n then pending g gu (Suc n) else add_mset (g ! n) (pending g gu (Suc n)))"
proof -
  let ?A = "{i. n \<le> i \<and> i < length gu \<and> \<not> gu ! i}"
  let ?B = "{i. Suc n \<le> i \<and> i < length gu \<and> \<not> gu ! i}"
  show ?thesis
  proof (cases "gu ! n")
    case True
    then have "?A = ?B"
      by (auto simp: Suc_le_eq le_less)
    with True show ?thesis by (simp add: pending_def)
  next
    case False
    then have "?A = insert n ?B" using assms
      by (auto simp: Suc_le_eq le_less)
    moreover have "n \<notin> ?B" "finite ?B" by auto
    ultimately show ?thesis using False
      by (simp add: pending_def)
  qed
qed

lemma pending_end: "pending g gu (length gu) = {#}"
proof -
  have "{i. length gu \<le> i \<and> i < length gu \<and> \<not> gu ! i} = {}" by auto
  then show ?thesis by (simp only: pending_def mset_set.empty image_mset_empty)
qed

lemma length_exact_upto: "length (exact_upto g s p n) = p"
  by (simp add: exact_upto_def)

lemma nth_exact_upto: "i < p \<Longrightarrow> exact_upto g s p n ! i \<longleftrightarrow> i < n \<and> g ! i = s ! i"
  by (simp add: exact_upto_def)

lemma misses_card:
  "card {j. j < n \<and> g ! j \<noteq> s ! j} + matches g s n = n"
proof (induction n)
  case 0
  then show ?case by (simp add: matches_0)
next
  case (Suc n)
  let ?A = "{j. j < n \<and> g ! j \<noteq> s ! j}"
  have fin: "finite ?A" by simp
  show ?case
  proof (cases "g ! n = s ! n")
    case True
    then have "{j. j < Suc n \<and> g ! j \<noteq> s ! j} = ?A"
      by (auto simp: less_Suc_eq)
    with True Suc show ?thesis by (simp add: matches_Suc)
  next
    case False
    then have "{j. j < Suc n \<and> g ! j \<noteq> s ! j} = insert n ?A"
      by (auto simp: less_Suc_eq)
    with False Suc fin show ?thesis by (simp add: matches_Suc)
  qed
qed

lemma size_avail_exact:
  "size (avail s (exact_upto g s p p)) + matches g s p = p"
proof -
  have "{j. j < length (exact_upto g s p p) \<and> \<not> exact_upto g s p p ! j} = {j. j < p \<and> g ! j \<noteq> s ! j}"
    by (auto simp: length_exact_upto nth_exact_upto)
  then show ?thesis
    using misses_card [of p g s] by (simp add: avail_def)
qed

lemma second_pass_prefix:
  fixes cfg :: config and g s :: "PegColor list"
  assumes n: "n \<le> NUM_PEGS cfg"
  defines "p \<equiv> NUM_PEGS cfg"
  defines "b \<equiv> matches g s (NUM_PEGS cfg)"
  defines "gu \<equiv> exact_upto g s (NUM_PEGS cfg) (NUM_PEGS cfg)"
  shows "\<exists>w su.
     for_loop [0..<n] (second_pass_body cfg g s)
        \<lparr>feedback = pegs_row p b 0, feedback_idx = b, secret_used = gu, guess_used = gu\<rparr> =
       Inr \<lparr>feedback = pegs_row p b w, feedback_idx = b + w, secret_used = su, guess_used = gu\<rparr>
     \<and> length su = p
     \<and> b + w + size (avail s su) = p
     \<and> w + size (pending g gu n \<inter># avail s su) = size (pending g gu 0 \<inter># avail s gu)"
  using n
proof (induction n)
  case 0
  have "b + size (avail s gu) = p"
    using size_avail_exact [of s g p] by (simp add: b_def gu_def p_def)
  then show ?case
    by (intro exI [of _ 0] exI [of _ gu]) (simp add: gu_def length_exact_upto p_def)
next
  case (Suc n)
  let ?init = "\<lparr>feedback = pegs_row p b 0, feedback_idx = b, secret_used = gu, guess_used = gu\<rparr>"
  from Suc obtain w su where
    run: "for_loop [0..<n] (second_pass_body cfg g s) ?init =
       Inr \<lparr>feedback = pegs_row p b w, feedback_idx = b + w, secret_used = su, guess_used = gu\<rparr>"
    and len: "length su = p"
    and room: "b + w + size (avail s su) = p"
    and inv: "w + size (pending g gu n \<inter># avail s su) = size (pending g gu 0 \<inter># avail s gu)"
    by auto
  let ?a = "\<lparr>feedback = pegs_row p b w, feedback_idx = b + w, secret_used = su, guess_used = gu\<rparr>"
  have step: "for_loop [0..<Suc n] (second_pass_body cfg g s) ?init = second_pass_body cfg g s n ?a"
    using run by (simp add: for_loop_Suc del: upt_Suc)
  have np: "n < p" using Suc.prems by (simp add: p_def)
  then have ngu: "n < length gu" by (simp add: gu_def length_exact_upto p_def)
  show ?case
  proof (cases "gu ! n")
    case True
    then have "second_pass_body cfg g s n ?a = Inr ?a"
      by (simp add: second_pass_body_def)
    moreover have "pending g gu n = pending g gu (Suc n)"
      using True pending_step [OF ngu, of g] by simp
    ultimately show ?thesis
      using len room inv unfolding step by auto
  next
    case False
    then have pend: "pending g gu n = add_mset (g ! n) (pending g gu (Suc n))"
      using pending_step [OF ngu, of g] by simp
    show ?thesis
    proof (cases "inner_loop [0..<NUM_PEGS cfg] (g ! n) s su")
      case None
      then have "g ! n \<notin># avail s su"
        using not_in_avail [OF len, of "g ! n" s] by (simp add: inner_loop_None p_def)
      then have "pending g gu n \<inter># avail s su = pending g gu (Suc n) \<inter># avail s su"
        by (simp add: pend inter_add_left1)
      moreover have "second_pass_body cfg g s n ?a = Inr ?a"
        using False None by (simp add: second_pass_body_def)
      ultimately show ?thesis
        using len room inv unfolding step by auto
    next
      case (Some j)
      then have j: "j < p" "\<not> su ! j" "g ! n = s ! j"
        using inner_loop_Some [of "[0..<NUM_PEGS cfg]" "g ! n" s su j] by (simp_all add: p_def)
      then have av: "avail s su = add_mset (g ! n) (avail s (su[j := True]))"
        using avail_take [of j su s] len by simp
      then have bw: "b + w < p" using room by simp
      have body: "second_pass_body cfg g s n ?a =
          Inr \<lparr>feedback = pegs_row p b (Suc w), feedback_idx = b + Suc w,
               secret_used = su[j := True], guess_used = gu\<rparr>"
        using False Some bw
        by (simp add: second_pass_body_def store_def length_pegs_row pegs_row_white)
      have "pending g gu n \<inter># avail s su
             = add_mset (g ! n) (pending g gu (Suc n) \<inter># avail s (su[j := True]))"
        by (simp add: pend av)
      then have inv': "Suc w + size (pending g gu (Suc n) \<inter># avail s (su[j := True]))
             = size (pending g gu 0 \<inter># avail s gu)"
        using inv by simp
      have room': "b + Suc w + size (avail s (su[j := True])) = p"
        using room av by simp
      show ?thesis
        unfolding step body
        using inv' room' len
        by (intro exI [of _ "Suc w"] exI [of _ "su[j := True]"]) simp
    qed
  qed
qed

lemma second_pass_skips_black:
  fixes cfg :: config and g s :: "PegColor list"
  assumes "i < NUM_PEGS cfg" "g ! i = s ! i" "first_pass cfg g s = Inr a1"
  shows "\<exists>ai. for_loop [0..<i] (second_pass_body cfg g s) a1 = Inr ai
            \<and> second_pass_body cfg g s i ai = Inr ai"
proof -
  let ?p = "NUM_PEGS cfg"
  have first: "first_pass cfg g s =
      Inr \<lparr>feedback = pegs_row ?p (matches g s ?p) 0, feedback_idx = matches g s ?p,
           secret_used = exact_upto g s ?p ?p, guess_used = exact_upto g s ?p ?p\<rparr>"
    unfolding first_pass_def by (rule first_pass_prefix) simp
  from second_pass_prefix [of i cfg g s] assms(1) obtain w su where
    run: "for_loop [0..<i] (second_pass_body cfg g s)
        \<lparr>feedback = pegs_row ?p (matches g s ?p) 0, feedback_idx = matches g s ?p,
           secret_used = exact_upto g s ?p ?p, guess_used = exact_upto g s ?p ?p\<rparr> =
       Inr \<lparr>feedback = pegs_row ?p (matches g s ?p) w, feedback_idx = matches g s ?p + w,
            secret_used = su, guess_used = exact_upto g s ?p ?p\<rparr>"
    by auto
  have "exact_upto g s ?p ?p ! i"
    using assms(1,2) by (simp add: nth_exact_upto)
  then have "second_pass_body cfg g s i
       \<lparr>feedback = pegs_row ?p (matches g s ?p) w, feedback_idx = matches g s ?p + w,
            secret_used = su, guess_used = exact_upto g s ?p ?p\<rparr>
     = Inr \<lparr>feedback = pegs_row ?p (matches g s ?p) w, feedback_idx = matches g s ?p + w,
            secret_used = su, guess_used = exact_upto g s ?p ?p\<rparr>"
    by (simp add: second_pass_body_def)
  with run first assms(3) show ?thesis by auto
qed

lemma count_list_replicate: "count_list (replicate n x) y = (if x = y then n else 0)"
  by (induction n) auto

lemma count_pegs_row:
  "count_list (pegs_row p b w) FEEDBACK_BLACK = b"
  "count_list (pegs_row p b w) FEEDBACK_WHITE = w"
  by (simp_all add: pegs_row_def count_list_replicate)

lemma score_result:
  "\<exists>a. score cfg g s = Inr a
     \<and> feedback a = pegs_row (NUM_PEGS cfg) (matches g s (NUM_PEGS cfg)) (whites (NUM_PEGS cfg) g s)
     \<and> feedback_idx a = matches g s (NUM_PEGS cfg) + whites (NUM_PEGS cfg) g s
     \<and> matches g s (NUM_PEGS cfg) + whites (NUM_PEGS cfg) g s \<le> NUM_PEGS cfg"
proof -
  let ?p = "NUM_PEGS cfg"
  have first: "first_pass cfg g s =
      Inr \<lparr>feedback = pegs_row ?p (matches g s ?p) 0, feedback_idx = matches g s ?p,
           secret_used = exact_upto g s ?p ?p, guess_used = exact_upto g s ?p ?p\<rparr>"
    unfolding first_pass_def by (rule first_pass_prefix) simp
  from second_pass_prefix [of ?p cfg g s] obtain w su where
    run: "for_loop [0..<?p] (second_pass_body cfg g s)
        \<lparr>feedback = pegs_row ?p (matches g s ?p) 0, feedback_idx = matches g s ?p,
           secret_used = exact_upto g s ?p ?p, guess_used = exact_upto g s ?p ?p\<rparr> =
       Inr \<lparr>feedback = pegs_row ?p (matches g s ?p) w, feedback_idx = matches g s ?p + w,
            secret_used = su, guess_used = exact_upto g s ?p ?p\<rparr>"
    and room: "matches g s ?p + w + size (avail s su) = ?p"
    and inv: "w + size (pending g (exact_upto g s ?p ?p) ?p \<inter># avail s su) = whites ?p g s"
    unfolding whites_def by auto
  have "pending g (exact_upto g s ?p ?p) ?p = {#}"
    using pending_end [of g "exact_upto g s ?p ?p"] by (simp add: length_exact_upto)
  with inv have w: "w = whites ?p g s" by simp
  from room have "matches g s ?p + w \<le> ?p" by simp
  with run w first show ?thesis
    by (simp add: score_def)
qed

lemma split_positions:
  fixes g s :: "PegColor list"
  assumes "length g = p" "length s = p"
  defines "e \<equiv> image_mset ((!) g) (mset_set {i. i < p \<and> g ! i = s ! i})"
  shows "mset g = e + pending g (exact_upto g s p p) 0"
    and "mset s = e + avail s (exact_upto g s p p)"
    and "card {i. i < p \<and> g ! i = s ! i} = matches g s p"
proof -
  let ?E = "{i. i < p \<and> g ! i = s ! i}" and ?N = "{i. i < p \<and> g ! i \<noteq> s ! i}"
  have un: "{0..<p} = ?E \<union> ?N" "?E \<inter> ?N = {}" "finite ?E" "finite ?N"
    by auto
  have all: "mset_set {0..<p} = mset_set ?E + mset_set ?N"
    unfolding un(1) by (rule mset_set_Union [OF un(3) un(4) un(2)])
  have an: "{i. i < length (exact_upto g s p p) \<and> \<not> exact_upto g s p p ! i} = ?N"
    by (auto simp: length_exact_upto nth_exact_upto)
  have "mset g = image_mset ((!) g) (mset [0..<p])"
    using assms(1) by (metis map_nth mset_map)
  then show "mset g = e + pending g (exact_upto g s p p) 0"
    by (simp add: mset_upt all e_def pending_def an)
  have es: "e = image_mset ((!) s) (mset_set ?E)"
    unfolding e_def by (rule image_mset_cong) simp
  have "mset s = image_mset ((!) s) (mset [0..<p])"
    using assms(2) by (metis map_nth mset_map)
  then show "mset s = e + avail s (exact_upto g s p p)"
    by (simp add: mset_upt all es avail_def an)
  have "card ?E + card ?N = p"
    using un by (metis card_Un_disjoint card_atLeastLessThan diff_zero)
  then show "card ?E = matches g s p"
    using misses_card [of p g s] by simp
qed

lemma pegs_total:
  fixes g s :: "PegColor list"
  assumes "length g = p" "length s = p"
  shows "matches g s p + whites p g s = size (mset g \<inter># mset s)"
proof -
  let ?e = "image_mset ((!) g) (mset_set {i. i < p \<and> g ! i = s ! i})"
  note sp = split_positions [OF assms]
  have "mset g \<inter># mset s = ?e + (pending g (exact_upto g s p p) 0 \<inter># avail s (exact_upto g s p p))"
    by (subst sp(1), subst sp(2)) (rule inter_union_distrib_right [symmetric])
  then show ?thesis
    by (simp add: sp(3) whites_def)
qed

lemma size_inter_sum:
  "size (mset xs \<inter># mset ys) = (\<Sum>c\<in>set xs \<union> set ys. min (count_list xs c) (count_list ys c))"
proof -
  have "size (mset xs \<inter># mset ys) = (\<Sum>c\<in>set_mset (mset xs \<inter># mset ys). count (mset xs \<inter># mset ys) c)"
    by (rule size_multiset_overloaded_eq)
  also have "\<dots> = (\<Sum>c\<in>set xs \<union> set ys. count (mset xs \<inter># mset ys) c)"
    by (rule sum.mono_neutral_left) (auto simp: count_eq_zero_iff)
  finally show ?thesis by (simp add: count_mset)
qed

lemma all_equal_iff:
  "length g = p \<Longrightarrow> length s = p \<Longrightarrow> list_all (\<lambda>i. g ! i = s ! i) [0..<p] \<longleftrightarrow> g = s"
proof -
  assume len: "length g = p" "length s = p"
  have "list_all (\<lambda>i. g ! i = s ! i) [0..<p] \<longleftrightarrow> (\<forall>i<p. g ! i = s ! i)"
    by (auto simp: list_all_iff)
  also have "\<dots> \<longleftrightarrow> g = s"
    using len by (simp add: list_eq_iff_nth_eq)
  finally show ?thesis .
qed

lemma matches_full_iff:
  "matches g s p = p \<longleftrightarrow> (\<forall>i<p. g ! i = s ! i)"
proof -
  have "matches g s p = p \<longleftrightarrow> card {j. j < p \<and> g ! j \<noteq> s ! j} = 0"
    using misses_card [of p g s] by arith
  also have "\<dots> \<longleftrightarrow> {j. j < p \<and> g ! j \<noteq> s ! j} = {}"
    by simp
  finally show ?thesis by auto
qed

lemma mset_unmatched:
  "mset (unmatched p g s g) = pending g (exact_upto g s p p) 0"
  "mset (unmatched p g s s) = avail s (exact_upto g s p p)"
proof -
  have f: "mset (filter (\<lambda>i. g ! i \<noteq> s ! i) [0..<p]) = mset_set {i. i < p \<and> g ! i \<noteq> s ! i}"
  proof -
    have eq: "{i \<in> {0..<p}. g ! i \<noteq> s ! i} = {i. i < p \<and> g ! i \<noteq> s ! i}" by auto
    have "mset (filter (\<lambda>i. g ! i \<noteq> s ! i) [0..<p]) = filter_mset (\<lambda>i. g ! i \<noteq> s ! i) (mset_set {0..<p})"
      by (simp only: mset_filter mset_upt)
    also have "\<dots> = mset_set {i \<in> {0..<p}. g ! i \<noteq> s ! i}"
      by (rule filter_mset_mset_set) simp
    finally show ?thesis by (simp only: eq)
  qed
  have an: "{i. i < length (exact_upto g s p p) \<and> \<not> exact_upto g s p p ! i} = {i. i < p \<and> g ! i \<noteq> s ! i}"
    by (auto simp: length_exact_upto nth_exact_upto)
  have m: "mset (map ((!) xs) (filter (\<lambda>i. g ! i \<noteq> s ! i) [0..<p]))
      = image_mset ((!) xs) (mset_set {i. i < p \<and> g ! i \<noteq> s ! i})" for xs :: "PegColor list"
    by (simp only: mset_map f)
  show "mset (unmatched p g s g) = pending g (exact_upto g s p p) 0"
    by (simp add: unmatched_def pending_def an m)
  show "mset (unmatched p g s s) = avail s (exact_upto g s p p)"
    by (simp add: unmatched_def avail_def an m)
qed

lemma set_unmatched: "length xs = p \<Longrightarrow> set (unmatched p g s xs) \<subseteq> set xs"
  by (auto simp: unmatched_def)

lemma whites_unmatched:
  assumes "length g = p" "length s = p"
  shows "whites p g s =
    (\<Sum>c\<in>set g \<union> set s. min (count_list (unmatched p g s g) c) (count_list (unmatched p g s s) c))"
proof -
  let ?g = "unmatched p g s g" and ?s = "unmatched p g s s"
  have "whites p g s = size (mset ?g \<inter># mset ?s)"
    by (simp only: whites_def mset_unmatched)
  also have "\<dots> = (\<Sum>c\<in>set ?g \<union> set ?s. min (count_list ?g c) (count_list ?s c))"
    by (rule size_inter_sum)
  also have "\<dots> = (\<Sum>c\<in>set g \<union> set s. min (count_list ?g c) (count_list ?s c))"
  proof (rule sum.mono_neutral_left)
    show "set ?g \<union> set ?s \<subseteq> set g \<union> set s"
      using set_unmatched [OF assms(1), of g s] set_unmatched [OF assms(2), of g s] by blast
    show "\<forall>c\<in>set g \<union> set s - (set ?g \<union> set ?s). min (count_list ?g c) (count_list ?s c) = 0"
      by (auto simp: count_list_0_iff)
  qed simp
  finally show ?thesis .
qed

lemma score_summary:
  assumes "length g = NUM_PEGS cfg" "length s = NUM_PEGS cfg"
  shows "\<exists>a. score cfg g s = Inr a
      \<and> feedback_idx a = black (feedback a) + white (feedback a)
      \<and> black (feedback a) = matches g s (NUM_PEGS cfg)
      \<and> white (feedback a) = whites (NUM_PEGS cfg) g s
      \<and> black (feedback a) + white (feedback a) \<le> NUM_PEGS cfg
      \<and> length (feedback a) = NUM_PEGS cfg"
  using score_result [of cfg g s]
  by (auto simp: black_def white_def count_pegs_row length_pegs_row)

lemma black_full_iff:
  assumes "length g = p" "length s = p"
  shows "matches g s p = p \<longleftrightarrow> g = s"
  using assms by (simp add: matches_full_iff list_eq_iff_nth_eq)

lemma evaluate_guess_fields:
  assumes "evaluate_guess cfg tick st = Inr st'"
  shows "\<exists>a. score cfg (current_guess st) (secret_code st) = Inr a
      \<and> attempts_used st < MAX_ATTEMPTS cfg
      \<and> feedback_history st' = (feedback_history st)[attempts_used st := feedback a]
      \<and> guess_history st' = (guess_history st)[attempts_used st := current_guess st]
      \<and> attempts_used st' = attempts_used st + 1
      \<and> secret_code st' = secret_code st
      \<and> current_guess st' = current_guess st
      \<and> cursor_position st' = cursor_position st
      \<and> start_time st' = start_time st
      \<and> state st' =
          (if list_all (\<lambda>i. current_guess st ! i = secret_code st ! i) [0..<NUM_PEGS cfg]
           then STATE_WON
           else if MAX_ATTEMPTS cfg \<le> attempts_used st + 1 then STATE_LOST else state st)
      \<and> elapsed_time st' =
          (if list_all (\<lambda>i. current_guess st ! i = secret_code st ! i) [0..<NUM_PEGS cfg]
              \<or> MAX_ATTEMPTS cfg \<le> attempts_used st + 1
           then elapsed_time st + (tick - start_time st) else elapsed_time st)"
  using assms
  by (auto simp: evaluate_guess_def Let_def split: if_splits sum.splits)

lemma evaluate_guess_returns:
  "attempts_used st < MAX_ATTEMPTS cfg \<Longrightarrow> \<exists>st'. evaluate_guess cfg tick st = Inr st'"
  using score_result [of cfg "current_guess st" "secret_code st"]
  by (auto simp: evaluate_guess_def Let_def)

lemma sized_zeroed: "sized_state cfg (zeroed cfg)"
  by (simp add: sized_state_def zeroed_def list_all_iff)

lemma sized_update_guess:
  "sized_state cfg st \<Longrightarrow> length g = NUM_PEGS cfg \<Longrightarrow> sized_state cfg (st\<lparr>current_guess := g\<rparr>)"
  by (simp add: sized_state_def)

lemma sized_evaluate_guess:
  assumes "sized_state cfg st" "evaluate_guess cfg tick st = Inr st'"
  shows "sized_state cfg st'"
proof -
  from evaluate_guess_fields [OF assms(2)] obtain a where
    a: "score cfg (current_guess st) (secret_code st) = Inr a"
    and f: "feedback_history st' = (feedback_history st)[attempts_used st := feedback a]"
       "guess_history st' = (guess_history st)[attempts_used st := current_guess st]"
       "secret_code st' = secret_code st" "current_guess st' = current_guess st"
    by blast
  have len: "length (current_guess st) = NUM_PEGS cfg" "length (secret_code st) = NUM_PEGS cfg"
    using assms(1) by (simp_all add: sized_state_def)
  from score_summary [OF len] a have "length (feedback a) = NUM_PEGS cfg" by auto
  with assms(1) len show ?thesis
    by (auto simp: sized_state_def f list_all_iff dest!: set_update_subset_insert [THEN subsetD])
qed

subsection \<open>The secret generator\<close>

lemma draw_unused_hit:
  "\<not> used ! (rnd k mod n + 1) \<Longrightarrow> draw_unused n rnd used k = Some (rnd k mod n + 1, Suc k)"
  by (subst draw_unused.simps) (simp add: Let_def)

lemma draw_unused_miss:
  "used ! (rnd k mod n + 1) \<Longrightarrow> draw_unused n rnd used k = draw_unused n rnd used (Suc k)"
  by (subst draw_unused.simps) (simp add: Let_def)

lemma draw_unused_Some:
  assumes "draw_unused n rnd used k = Some r"
  shows "\<not> used ! fst r \<and> (\<exists>j. fst r = rnd j mod n + 1)"
proof (rule draw_unused.raw_induct
    [where P = "\<lambda>n rnd used k r. \<not> used ! fst r \<and> (\<exists>j. fst r = rnd j mod n + 1)", OF _ assms])
  fix draw :: "nat \<Rightarrow> (nat \<Rightarrow> nat) \<Rightarrow> bool list \<Rightarrow> nat \<Rightarrow> (PegColor \<times> nat) option"
    and n rnd used k r
  assume ih: "\<And>n rnd used k r. draw n rnd used k = Some r \<Longrightarrow>
                \<not> used ! fst r \<and> (\<exists>j. fst r = rnd j mod n + 1)"
    and eq: "(let color = rnd k mod n + 1
              in if used ! color then draw n rnd used (Suc k) else Some (color, Suc k)) = Some r"
  show "\<not> used ! fst r \<and> (\<exists>j. fst r = rnd j mod n + 1)"
  proof (cases "used ! (rnd k mod n + 1)")
    case True
    with eq have "draw n rnd used (Suc k) = Some r" by (simp add: Let_def)
    then show ?thesis by (rule ih)
  next
    case False
    with eq show ?thesis by (auto simp: Let_def)
  qed
qed

lemma draw_unused_range:
  assumes "draw_unused n rnd used k = Some (c, k')" "0 < n"
  shows "1 \<le> c" "c \<le> n" "\<not> used ! c"
proof -
  from draw_unused_Some [OF assms(1)] obtain j where "\<not> used ! c" "c = rnd j mod n + 1"
    by auto
  moreover have "rnd j mod n < n" using assms(2) by simp
  ultimately show "1 \<le> c" "c \<le> n" "\<not> used ! c" by simp_all
qed

lemma draw_unused_returns:
  assumes "k \<le> j" "\<not> used ! (rnd j mod n + 1)"
  shows "\<exists>r. draw_unused n rnd used k = Some r"
  using assms
proof (induction "j - k" arbitrary: k)
  case 0
  then have "k = j" by simp
  with 0 show ?case by (simp add: draw_unused_hit)
next
  case (Suc d)
  show ?case
  proof (cases "used ! (rnd k mod n + 1)")
    case True
    from Suc have "d = j - Suc k" "Suc k \<le> j" by simp_all
    from Suc(1) [OF this Suc(4)] show ?thesis
      by (simp only: draw_unused_miss [of used rnd k n, OF True])
  next
    case False
    then show ?thesis by (simp add: draw_unused_hit)
  qed
qed

lemma no_repeat_loop_Some:
  assumes "no_repeat_loop is n rnd used code k = Some (code', k')"
    and "distinct is" and "\<forall>i\<in>set is. i < length code"
    and "length used = n + 1" and "0 < n"
  shows "length code' = length code
       \<and> (\<forall>i<length code. i \<notin> set is \<longrightarrow> code' ! i = code ! i)
       \<and> (\<forall>i\<in>set is. 1 \<le> code' ! i \<and> code' ! i \<le> n \<and> \<not> used ! (code' ! i))
       \<and> inj_on ((!) code') (set is)"
  using assms
proof (induction "is" arbitrary: used code k)
  case Nil
  then show ?case by simp
next
  case (Cons i "is")
  from Cons.prems(1) obtain c k1 where
    draw: "draw_unused n rnd used k = Some (c, k1)"
    and rest: "no_repeat_loop is n rnd (used[c := True]) (code[i := c]) k1 = Some (code', k')"
    by (auto split: option.splits)
  note c = draw_unused_range [OF draw Cons.prems(5)]
  have i: "i < length code" "i \<notin> set is" using Cons.prems(2,3) by simp_all
  have ih: "length code' = length (code[i := c])
       \<and> (\<forall>j<length (code[i := c]). j \<notin> set is \<longrightarrow> code' ! j = code[i := c] ! j)
       \<and> (\<forall>j\<in>set is. 1 \<le> code' ! j \<and> code' ! j \<le> n \<and> \<not> used[c := True] ! (code' ! j))
       \<and> inj_on ((!) code') (set is)"
    using Cons.prems(2-5) by (intro Cons.IH [OF rest]) simp_all
  then have len: "length code' = length code"
    and out: "\<forall>j<length code. j \<notin> set is \<longrightarrow> code' ! j = code[i := c] ! j"
    and inn: "\<forall>j\<in>set is. 1 \<le> code' ! j \<and> code' ! j \<le> n \<and> \<not> used[c := True] ! (code' ! j)"
    and inj: "inj_on ((!) code') (set is)"
    by simp_all
  have ci: "code' ! i = c" using out i by simp
  have fresh: "\<forall>j\<in>set is. code' ! j \<noteq> c \<and> \<not> used ! (code' ! j)"
  proof
    fix j assume j: "j \<in> set is"
    with inn have r: "code' ! j \<le> n" and u: "\<not> used[c := True] ! (code' ! j)" by simp_all
    from c(2) Cons.prems(4) have "c < length used" by simp
    with u show "code' ! j \<noteq> c \<and> \<not> used ! (code' ! j)"
      by (cases "code' ! j = c") simp_all
  qed
  have "\<forall>j<length code. j \<notin> set (i # is) \<longrightarrow> code' ! j = code ! j"
    using out by auto
  moreover have "\<forall>j\<in>set (i # is). 1 \<le> code' ! j \<and> code' ! j \<le> n \<and> \<not> used ! (code' ! j)"
    using inn fresh ci c by auto
  moreover have "inj_on ((!) code') (set (i # is))"
    using inj fresh ci by (auto simp: inj_on_def)
  ultimately show ?case using len by simp
qed

lemma no_repeat_loop_all:
  assumes "no_repeat_loop [0..<p] n rnd used code k = Some (code', k')"
    and "length code = p" and "length used = n + 1" and "0 < n"
  shows "length code' = p" "distinct code'" "\<forall>c\<in>set code'. 1 \<le> c \<and> c \<le> n" "p \<le> n"
proof -
  from no_repeat_loop_Some [OF assms(1) _ _ assms(3,4)] assms(2)
  have len: "length code' = p"
    and rng: "\<forall>i\<in>set [0..<p]. 1 \<le> code' ! i \<and> code' ! i \<le> n \<and> \<not> used ! (code' ! i)"
    and inj: "inj_on ((!) code') (set [0..<p])"
    by simp_all
  show "length code' = p" by (rule len)
  show d: "distinct code'"
    using inj len by (auto simp: distinct_conv_nth inj_on_def)
  show r: "\<forall>c\<in>set code'. 1 \<le> c \<and> c \<le> n"
    using rng len by (auto simp: in_set_conv_nth)
  have "set code' \<subseteq> {1..n}" using r by auto
  then have "card (set code') \<le> card {1..n}" by (intro card_mono) simp_all
  with d len show "p \<le> n" by (simp add: distinct_card)
qed

lemma no_repeat_loop_hangs:
  assumes "n < p" "0 < n" "length code = p" "length used = n + 1"
  shows "no_repeat_loop [0..<p] n rnd used code k = None"
proof (cases "no_repeat_loop [0..<p] n rnd used code k")
  case None
  then show ?thesis .
next
  case (Some r)
  obtain code' k' where "r = (code', k')" by (cases r)
  with Some no_repeat_loop_all(4) [OF _ assms(3,4,2)] have "p \<le> n" by blast
  with assms(1) show ?thesis by simp
qed

lemma no_repeat_loop_returns:
  assumes "fair_source n rnd" and "length used = n + 1"
    and "card {c. 1 \<le> c \<and> c \<le> n \<and> used ! c} + length is \<le> n"
  shows "\<exists>r. no_repeat_loop is n rnd used code k = Some r"
  using assms(2,3)
proof (induction "is" arbitrary: used code k)
  case Nil
  show ?case by simp
next
  case (Cons i "is")
  let ?U = "{c. 1 \<le> c \<and> c \<le> n \<and> used ! c}"
  have sub: "?U \<subseteq> {1..n}" by auto
  have "card ?U < card {1..n}" using Cons.prems(2) by simp
  with sub have "?U \<noteq> {1..n}" by auto
  with sub have "\<exists>c\<in>{1..n}. c \<notin> ?U" by blast
  then obtain c where c: "1 \<le> c" "c \<le> n" "\<not> used ! c" by auto
  then have "c - 1 < n" by simp
  with assms(1) obtain j where j: "k \<le> j" "rnd j mod n = c - 1"
    unfolding fair_source_def by blast
  with c have "\<not> used ! (rnd j mod n + 1)" by simp
  from draw_unused_returns [of k j used rnd n, OF j(1) this] obtain c' k1 where
    draw: "draw_unused n rnd used k = Some (c', k1)" by auto
  have n: "0 < n" using c by simp
  note c' = draw_unused_range [OF draw n]
  have "{c. 1 \<le> c \<and> c \<le> n \<and> used[c' := True] ! c} = insert c' ?U"
    using c' Cons.prems(1) by (auto simp: nth_list_update)
  moreover have "c' \<notin> ?U" "finite ?U" using c'(3) by simp_all
  ultimately have "card {c. 1 \<le> c \<and> c \<le> n \<and> used[c' := True] ! c} = Suc (card ?U)"
    by simp
  with Cons.prems have "card {c. 1 \<le> c \<and> c \<le> n \<and> used[c' := True] ! c} + length is \<le> n"
    by simp
  from Cons.IH [OF _ this, of "code[i := c']" k1] Cons.prems(1) draw show ?case
    by simp
qed

lemma repeat_loop_fst:
  assumes "\<forall>i\<in>set is. i < length code" "0 < n"
  shows "length (fst (repeat_loop is n rnd code k)) = length code
       \<and> (\<forall>i<length code. i \<notin> set is \<longrightarrow> fst (repeat_loop is n rnd code k) ! i = code ! i)
       \<and> (\<forall>i\<in>set is. 1 \<le> fst (repeat_loop is n rnd code k) ! i
                       \<and> fst (repeat_loop is n rnd code k) ! i \<le> n)"
  using assms(1)
proof (induction "is" arbitrary: code k)
  case Nil
  show ?case by simp
next
  case (Cons i "is")
  let ?c = "rnd k mod n + 1"
  let ?r = "fst (repeat_loop is n rnd (code[i := ?c]) (Suc k))"
  have c: "1 \<le> ?c" "?c \<le> n" using assms(2) by (simp_all add: Suc_leI)
  have ih: "length ?r = length (code[i := ?c])
       \<and> (\<forall>j<length (code[i := ?c]). j \<notin> set is \<longrightarrow> ?r ! j = code[i := ?c] ! j)
       \<and> (\<forall>j\<in>set is. 1 \<le> ?r ! j \<and> ?r ! j \<le> n)"
    using Cons.prems by (intro Cons.IH) simp
  have i: "i < length code" using Cons.prems by simp
  have "i \<notin> set is \<Longrightarrow> ?r ! i = ?c" using ih i by simp
  then have "1 \<le> ?r ! i \<and> ?r ! i \<le> n" using ih c by (cases "i \<in> set is") auto
  with ih show ?case by (auto simp: nth_list_update)
qed

lemma generate_secret_code_Some:
  assumes "generate_secret_code cfg rnd st = Some st'"
    and "0 < NUM_COLORS cfg" and "length (secret_code st) = NUM_PEGS cfg"
  shows "length (secret_code st') = NUM_PEGS cfg"
    and "\<forall>c\<in>set (secret_code st'). 1 \<le> c \<and> c \<le> NUM_COLORS cfg"
    and "\<not> COLOR_REPEAT cfg \<Longrightarrow> distinct (secret_code st') \<and> NUM_PEGS cfg \<le> NUM_COLORS cfg"
proof -
  let ?p = "NUM_PEGS cfg" and ?n = "NUM_COLORS cfg"
  show "length (secret_code st') = ?p"
  proof (cases "COLOR_REPEAT cfg")
    case True
    with assms(1) repeat_loop_fst [of "[0..<?p]" "secret_code st" ?n rnd 0] assms(2,3)
    show ?thesis by (auto simp: generate_secret_code_def)
  next
    case False
    with assms(1) obtain code k where
      l: "no_repeat_loop [0..<?p] ?n rnd (replicate (?n + 1) False) (secret_code st) 0 = Some (code, k)"
      and s: "secret_code st' = code"
      by (auto simp: generate_secret_code_def split: option.splits)
    from no_repeat_loop_all(1) [OF l assms(3) _ assms(2)] s show ?thesis by simp
  qed
  show "\<forall>c\<in>set (secret_code st'). 1 \<le> c \<and> c \<le> ?n"
  proof (cases "COLOR_REPEAT cfg")
    case True
    let ?r = "fst (repeat_loop [0..<?p] ?n rnd (secret_code st) 0)"
    from repeat_loop_fst [of "[0..<?p]" "secret_code st" ?n rnd 0] assms(2,3)
    have "length ?r = ?p" "\<forall>i\<in>set [0..<?p]. 1 \<le> ?r ! i \<and> ?r ! i \<le> ?n" by simp_all
    then have "\<forall>c\<in>set ?r. 1 \<le> c \<and> c \<le> ?n" by (auto simp: in_set_conv_nth)
    with True assms(1) show ?thesis by (auto simp: generate_secret_code_def)
  next
    case False
    with assms(1) obtain code k where
      l: "no_repeat_loop [0..<?p] ?n rnd (replicate (?n + 1) False) (secret_code st) 0 = Some (code, k)"
      and s: "secret_code st' = code"
      by (auto simp: generate_secret_code_def split: option.splits)
    from no_repeat_loop_all(3) [OF l assms(3) _ assms(2)] s show ?thesis by simp
  qed
  show "distinct (secret_code st') \<and> ?p \<le> ?n" if "\<not> COLOR_REPEAT cfg"
  proof -
    from that assms(1) obtain code k where
      l: "no_repeat_loop [0..<?p] ?n rnd (replicate (?n + 1) False) (secret_code st) 0 = Some (code, k)"
      and s: "secret_code st' = code"
      by (auto simp: generate_secret_code_def split: option.splits)
    from no_repeat_loop_all(2,4) [OF l assms(3) _ assms(2)] s show ?thesis by simp
  qed
qed

lemma generate_secret_code_hangs:
  assumes "\<not> COLOR_REPEAT cfg" "NUM_COLORS cfg < NUM_PEGS cfg" "0 < NUM_COLORS cfg"
    and "length (secret_code st) = NUM_PEGS cfg"
  shows "generate_secret_code cfg rnd st = None"
  using no_repeat_loop_hangs [OF assms(2,3,4), of "replicate (NUM_COLORS cfg + 1) False" rnd 0] assms(1)
  by (simp add: generate_secret_code_def)

lemma generate_secret_code_returns:
  assumes "COLOR_REPEAT cfg \<or> NUM_PEGS cfg \<le> NUM_COLORS cfg" "fair_source (NUM_COLORS cfg) rnd"
  shows "\<exists>st'. generate_secret_code cfg rnd st = Some st'"
proof (cases "COLOR_REPEAT cfg")
  case True
  then show ?thesis by (simp add: generate_secret_code_def)
next
  case False
  have e: "{c. 1 \<le> c \<and> c \<le> NUM_COLORS cfg \<and> replicate (NUM_COLORS cfg + 1) False ! c} = {}"
    by auto
  have "card {c. 1 \<le> c \<and> c \<le> NUM_COLORS cfg \<and> replicate (NUM_COLORS cfg + 1) False ! c}
      + length [0..<NUM_PEGS cfg] \<le> NUM_COLORS cfg"
    unfolding e using assms(1) False by simp
  from no_repeat_loop_returns [OF assms(2) _ this, of "secret_code st" 0] False show ?thesis
    by (auto simp: generate_secret_code_def)
qed

lemma generate_secret_code_frame:
  "generate_secret_code cfg rnd st = Some st' \<Longrightarrow> \<exists>code. st' = st\<lparr>secret_code := code\<rparr>"
  by (auto simp: generate_secret_code_def split: if_splits option.splits)

lemma new_round_fields:
  assumes "new_round cfg tick rnd st = Inr st'"
  shows "state st' = STATE_PLAYING" "cursor_position st' = 0" "attempts_used st' = 0"
    "start_time st' = tick" "elapsed_time st' = 0"
    "current_guess st' = replicate (NUM_PEGS cfg) COLOR_NONE"
    "guess_history st' = guess_history st" "feedback_history st' = feedback_history st"
proof -
  let ?s = "st\<lparr>state := STATE_PLAYING, cursor_position := 0, attempts_used := 0,
                 start_time := tick, elapsed_time := 0,
                 current_guess := replicate (NUM_PEGS cfg) COLOR_NONE\<rparr>"
  from assms have "generate_secret_code cfg rnd ?s = Some st'"
    by (simp add: new_round_def split: option.splits)
  from generate_secret_code_frame [OF this] obtain code where st': "st' = ?s\<lparr>secret_code := code\<rparr>" ..
  show "state st' = STATE_PLAYING" "cursor_position st' = 0" "attempts_used st' = 0"
    "start_time st' = tick" "elapsed_time st' = 0"
    "current_guess st' = replicate (NUM_PEGS cfg) COLOR_NONE"
    "guess_history st' = guess_history st" "feedback_history st' = feedback_history st"
    by (simp_all add: st')
qed

lemma length_secret_zeroed: "length (secret_code (zeroed cfg)) = NUM_PEGS cfg"
  by (simp add: zeroed_def)

lemma hirn_init_hangs:
  assumes "\<not> COLOR_REPEAT cfg" "NUM_COLORS cfg < NUM_PEGS cfg" "0 < NUM_COLORS cfg"
  shows "hirn_init cfg tick rnd = Inl NeverReturns"
proof -
  let ?s = "zeroed cfg\<lparr>state := STATE_PLAYING, cursor_position := 0, attempts_used := 0,
          start_time := tick, elapsed_time := 0,
          current_guess := replicate (NUM_PEGS cfg) COLOR_NONE\<rparr>"
  have "length (secret_code ?s) = NUM_PEGS cfg" by (simp add: zeroed_def)
  from generate_secret_code_hangs [OF assms this] show ?thesis
    by (simp add: hirn_init_def new_round_def)
qed

subsection \<open>Events, the clock and the states of the main loop\<close>

lemma submit_is_evaluate:
  "state st = STATE_PLAYING \<Longrightarrow> is_guess_complete cfg st \<Longrightarrow> is_guess_different cfg st
     \<Longrightarrow> on_ok cfg tick rnd st = evaluate_guess cfg tick st"
  by (simp add: on_ok_def)

lemma on_ok_rejected:
  assumes "\<not> (state st = STATE_PLAYING \<and> is_guess_complete cfg st \<and> is_guess_different cfg st)"
  shows "on_ok cfg tick rnd st =
     (if state st = STATE_PLAYING then Inr st
      else if state st = STATE_PAUSED \<or> state st = STATE_REVEAL
        then Inr (st\<lparr>state := STATE_PLAYING, start_time := tick\<rparr>)
      else new_round cfg tick rnd st)"
  using assms by (cases "state st") (auto simp: on_ok_def)

lemma handle_ok:
  assumes "type event = InputTypePress \<or> type event = InputTypeRepeat" "key event = InputKeyOk"
  shows "handle_event cfg event tick rnd (running, st) =
     (case on_ok cfg tick rnd st of Inl e \<Rightarrow> Inl e | Inr st' \<Rightarrow> Inr (running, st'))"
  using assms by (auto simp: handle_event_def)

lemma total_time_stopped:
  "state st \<noteq> STATE_PLAYING \<Longrightarrow>
     total_time cfg t st = (if elapsed_time st > MAX_TIME_MS cfg then MAX_TIME_MS cfg else elapsed_time st)"
  by (simp add: total_time_def)

lemma total_time_playing:
  "state st = STATE_PLAYING \<Longrightarrow>
     total_time cfg t st =
       (if elapsed_time st + (t - start_time st) > MAX_TIME_MS cfg then MAX_TIME_MS cfg
        else elapsed_time st + (t - start_time st))"
  by (simp add: total_time_def)

lemma on_ok_stopped:
  assumes "state s \<noteq> STATE_PLAYING" "on_ok cfg t rnd s = Inr s'"
  shows "elapsed_time s' = elapsed_time s
         \<or> (state s = STATE_WON \<or> state s = STATE_LOST) \<and> elapsed_time s' = 0"
proof (cases "state s = STATE_WON \<or> state s = STATE_LOST")
  case True
  with assms have "new_round cfg t rnd s = Inr s'"
    by (auto simp: on_ok_def)
  from new_round_fields(5) [OF this] True show ?thesis by simp
next
  case False
  with assms show ?thesis
    by (cases "state s") (auto simp: on_ok_def)
qed

lemma stopped_clock_event:
  assumes "state s \<noteq> STATE_PLAYING"
    and "handle_event cfg ev t rnd (running, s) = Inr (running', s')"
  shows "elapsed_time s' = elapsed_time s
         \<or> (state s = STATE_WON \<or> state s = STATE_LOST) \<and> elapsed_time s' = 0"
proof (cases "(type ev = InputTypePress \<or> type ev = InputTypeRepeat) \<and> key ev = InputKeyOk")
  case True
  with assms(2) obtain s'' where "on_ok cfg t rnd s = Inr s''" "s' = s''"
    by (auto simp: handle_ok split: sum.splits)
  with on_ok_stopped [OF assms(1)] show ?thesis by blast
next
  case False
  with assms show ?thesis
    by (auto simp: handle_event_def split: if_splits)
qed

lemma event_keeps_round:
  assumes "state st \<noteq> STATE_WON" "state st \<noteq> STATE_LOST"
    and "handle_event cfg ev t rnd (running, st) = Inr (running', st')"
  shows "secret_code st' = secret_code st \<and> attempts_used st \<le> attempts_used st'"
proof (cases "(type ev = InputTypePress \<or> type ev = InputTypeRepeat) \<and> key ev = InputKeyOk")
  case True
  with assms(3) have ok: "on_ok cfg t rnd st = Inr st'"
    by (auto simp: handle_ok split: sum.splits)
  show ?thesis
  proof (cases "state st = STATE_PLAYING \<and> is_guess_complete cfg st \<and> is_guess_different cfg st")
    case True
    with ok have "evaluate_guess cfg t st = Inr st'" by (simp add: on_ok_def)
    from evaluate_guess_fields [OF this] show ?thesis by auto
  next
    case False
    with ok assms(1,2) show ?thesis
      by (cases "state st") (auto simp: on_ok_rejected)
  qed
next
  case False
  with assms(3) show ?thesis
    by (auto simp: handle_event_def Let_def split: if_splits)
qed

lemma stopped_event_keeps_history:
  assumes "state st \<noteq> STATE_PLAYING"
    and "handle_event cfg ev t rnd (running, st) = Inr (running', st')"
  shows "guess_history st' = guess_history st \<and> feedback_history st' = feedback_history st"
proof (cases "(type ev = InputTypePress \<or> type ev = InputTypeRepeat) \<and> key ev = InputKeyOk")
  case True
  with assms(2) have ok: "on_ok cfg t rnd st = Inr st'"
    by (auto simp: handle_ok split: sum.splits)
  have r: "\<not> (state st = STATE_PLAYING \<and> is_guess_complete cfg st \<and> is_guess_different cfg st)"
    using assms(1) by simp
  show ?thesis
  proof (cases "state st = STATE_WON \<or> state st = STATE_LOST")
    case True
    with ok assms(1) have "new_round cfg t rnd st = Inr st'"
      by (auto simp: on_ok_rejected [OF r])
    from new_round_fields(7,8) [OF this] show ?thesis by simp
  next
    case False
    with ok assms(1) show ?thesis
      by (cases "state st") (auto simp: on_ok_rejected [OF r])
  qed
next
  case False
  with assms show ?thesis
    by (auto simp: handle_event_def split: if_splits)
qed

lemma game_inv_new_round:
  assumes "well_configured cfg" "sized_state cfg st" "new_round cfg tick rnd st = Inr st'"
  shows "game_inv cfg st'"
proof -
  let ?s = "st\<lparr>state := STATE_PLAYING, cursor_position := 0, attempts_used := 0,
                 start_time := tick, elapsed_time := 0,
                 current_guess := replicate (NUM_PEGS cfg) COLOR_NONE\<rparr>"
  from assms(3) have g: "generate_secret_code cfg rnd ?s = Some st'"
    by (simp add: new_round_def split: option.splits)
  have len: "length (secret_code ?s) = NUM_PEGS cfg"
    using assms(2) by (simp add: sized_state_def)
  have n: "0 < NUM_COLORS cfg" using assms(1) by (simp add: well_configured_def)
  note l = generate_secret_code_Some(1) [OF g n len]
  note f = new_round_fields [OF assms(3)]
  have "sized_state cfg st'"
    using assms(2) l f by (simp add: sized_state_def)
  with f assms(1) show ?thesis
    by (simp add: game_inv_def well_configured_def)
qed

lemma game_inv_init:
  assumes "well_configured cfg" "hirn_init cfg tick rnd = Inr st"
  shows "game_inv cfg st"
  using game_inv_new_round [OF assms(1) sized_zeroed] assms(2)
  by (simp add: hirn_init_def)

lemma game_inv_evaluate_guess:
  assumes "game_inv cfg st" "state st = STATE_PLAYING" "evaluate_guess cfg tick st = Inr st'"
  shows "game_inv cfg st'"
proof -
  have sz: "sized_state cfg st" using assms(1) by (simp add: game_inv_def)
  then have len: "length (current_guess st) = NUM_PEGS cfg" "length (secret_code st) = NUM_PEGS cfg"
      "length (guess_history st) = MAX_ATTEMPTS cfg"
    by (simp_all add: sized_state_def)
  from evaluate_guess_fields [OF assms(3)] obtain a where
    lt: "attempts_used st < MAX_ATTEMPTS cfg"
    and gh: "guess_history st' = (guess_history st)[attempts_used st := current_guess st]"
    and au: "attempts_used st' = attempts_used st + 1"
    and sc: "secret_code st' = secret_code st"
    and cp: "cursor_position st' = cursor_position st"
    and ph: "state st' =
          (if list_all (\<lambda>i. current_guess st ! i = secret_code st ! i) [0..<NUM_PEGS cfg]
           then STATE_WON
           else if MAX_ATTEMPTS cfg \<le> attempts_used st + 1 then STATE_LOST else state st)"
    by blast
  have last: "guess_history st' ! (attempts_used st' - 1) = current_guess st"
    using lt len(3) by (simp add: gh au)
  have won: "list_all (\<lambda>i. current_guess st ! i = secret_code st ! i) [0..<NUM_PEGS cfg]
      \<longleftrightarrow> current_guess st = secret_code st"
    using all_equal_iff [OF len(1,2)] .
  have "sized_state cfg st'" using sz assms(3) by (rule sized_evaluate_guess)
  moreover have "cursor_position st' < NUM_PEGS cfg"
    using assms(1) cp by (simp add: game_inv_def)
  moreover have "attempts_used st' \<le> MAX_ATTEMPTS cfg" using lt au by simp
  moreover have "state st' = STATE_PLAYING \<or> state st' = STATE_PAUSED \<or> state st' = STATE_REVEAL
          \<longrightarrow> attempts_used st' < MAX_ATTEMPTS cfg"
    using ph assms(2) au by (auto split: if_splits)
  moreover have "state st' = STATE_WON
          \<longrightarrow> 0 < attempts_used st' \<and> guess_history st' ! (attempts_used st' - 1) = secret_code st'"
    using ph assms(2) won au last sc by (auto split: if_splits)
  moreover have "state st' = STATE_LOST
          \<longrightarrow> attempts_used st' = MAX_ATTEMPTS cfg
                \<and> guess_history st' ! (attempts_used st' - 1) \<noteq> secret_code st'
              \<or> elapsed_time st' = MAX_TIME_MS cfg"
    using ph assms(2) won au last sc lt by (auto split: if_splits)
  ultimately show ?thesis by (simp add: game_inv_def)
qed

lemma game_inv_on_ok:
  assumes "well_configured cfg" "game_inv cfg st" "on_ok cfg tick rnd st = Inr st'"
  shows "game_inv cfg st'"
proof (cases "state st = STATE_PLAYING \<and> is_guess_complete cfg st \<and> is_guess_different cfg st")
  case True
  with assms(3) have "evaluate_guess cfg tick st = Inr st'" by (simp add: on_ok_def)
  with assms(2) True show ?thesis by (blast intro: game_inv_evaluate_guess)
next
  case False
  note r = on_ok_rejected [OF False, of tick rnd]
  show ?thesis
  proof (cases "state st = STATE_WON \<or> state st = STATE_LOST")
    case True
    with assms(3) r have "new_round cfg tick rnd st = Inr st'" by auto
    moreover have "sized_state cfg st" using assms(2) by (simp add: game_inv_def)
    ultimately show ?thesis using assms(1) by (blast intro: game_inv_new_round)
  next
    case False
    with assms(2,3) r show ?thesis
      by (cases "state st") (auto simp: game_inv_def sized_state_def)
  qed
qed

lemma game_inv_handle_event:
  assumes "well_configured cfg" "game_inv cfg st"
    and "handle_event cfg ev t rnd (running, st) = Inr (running', st')"
  shows "game_inv cfg st'"
proof (cases "(type ev = InputTypePress \<or> type ev = InputTypeRepeat) \<and> key ev = InputKeyOk")
  case True
  with assms(3) have "on_ok cfg t rnd st = Inr st'"
    by (auto simp: handle_ok split: sum.splits)
  with assms(1,2) show ?thesis by (rule game_inv_on_ok)
next
  case False
  with assms(2,3) show ?thesis
    by (auto simp: handle_event_def Let_def game_inv_def sized_state_def split: if_splits)
qed

lemma game_inv_check_time_limit:
  "game_inv cfg st \<Longrightarrow> game_inv cfg (check_time_limit cfg t st)"
  by (auto simp: check_time_limit_def Let_def game_inv_def sized_state_def)

lemma game_inv_loop_body:
  assumes "well_configured cfg" "game_inv cfg st"
    and "loop_body cfg ev t t' rnd (running, st) = Inr (running', st')"
  shows "game_inv cfg st'"
proof (cases ev)
  case None
  with assms(3) have "st' = check_time_limit cfg t' st" by (simp add: loop_body_def)
  with assms(2) show ?thesis by (simp add: game_inv_check_time_limit)
next
  case (Some event)
  with assms(3) obtain r s where h: "handle_event cfg event t rnd (running, st) = Inr (r, s)"
    and s: "st' = check_time_limit cfg t' s"
    by (auto simp: loop_body_def split: sum.splits)
  from game_inv_handle_event [OF assms(1,2) h] s show ?thesis
    by (simp add: game_inv_check_time_limit)
qed

lemma reachable_game_inv:
  assumes "well_configured cfg" "reachable cfg st"
  shows "game_inv cfg st"
  using assms(2)
proof induction
  case (start tick rnd st)
  with assms(1) show ?case by (blast intro: game_inv_init)
next
  case (pass st ev tick tick' rnd running running' st')
  with assms(1) show ?case by (blast intro: game_inv_loop_body)
qed

lemma reachable_main_loop:
  "reachable cfg st \<Longrightarrow> main_loop cfg inputs (running, st) = Inr (running', st')
     \<Longrightarrow> reachable cfg st'"
proof (induction inputs arbitrary: running st)
  case Nil
  then show ?case by simp
next
  case (Cons i inputs)
  obtain ev tick tick' rnd where i: "i = (ev, tick, tick', rnd)" by (cases i)
  show ?case
  proof (cases running)
    case True
    with Cons.prems(2) i obtain r s where
      b: "loop_body cfg ev tick tick' rnd (running, st) = Inr (r, s)"
      and m: "main_loop cfg inputs (r, s) = Inr (running', st')"
      by (auto split: sum.splits)
    from Cons.prems(1) b have "reachable cfg s" by (rule reachable.pass)
    from Cons.IH [OF this m] show ?thesis .
  next
    case False
    with Cons.prems i show ?thesis by simp
  qed
qed

lemma guess_complete_iff:
  "is_guess_complete cfg st \<longleftrightarrow> (\<forall>i<NUM_PEGS cfg. current_guess st ! i \<noteq> COLOR_NONE)"
  by (auto simp: is_guess_complete_def list_all_iff)

lemma guess_different_iff:
  "is_guess_different cfg st \<longleftrightarrow>
     attempts_used st = 0
     \<or> (\<exists>i<NUM_PEGS cfg. current_guess st ! i \<noteq> guess_history st ! (attempts_used st - 1) ! i)"
  by (auto simp: is_guess_different_def list_ex_iff)

lemma evaluate_guess_counts:
  assumes "evaluate_guess cfg tick st = Inr st'"
  shows "attempts_used st' = attempts_used st + 1"
  using evaluate_guess_fields [OF assms] by blast

lemma main_loop_halted: "\<not> fst rs \<Longrightarrow> main_loop cfg inputs rs = Inr rs"
  by (cases inputs) auto

lemma main_loop_append:
  "main_loop cfg (xs @ ys) rs =
     (case main_loop cfg xs rs of Inl e \<Rightarrow> Inl e | Inr rs' \<Rightarrow> main_loop cfg ys rs')"
proof (induction xs arbitrary: rs)
  case Nil
  show ?case by simp
next
  case (Cons x xs)
  obtain ev tick tick' rnd where x: "x = (ev, tick, tick', rnd)" by (cases x)
  show ?case
  proof (cases "fst rs")
    case True
    then show ?thesis
      by (simp add: x Cons.IH split: sum.splits)
  next
    case False
    then show ?thesis
      by (simp add: x main_loop_halted)
  qed
qed

lemma idle_pass_stopped:
  "state s \<noteq> STATE_PLAYING \<Longrightarrow> loop_body cfg None tick tick' rnd (running, s) = Inr (running, s)"
  by (simp add: loop_body_def check_time_limit_def)

lemma idle_stopped:
  "idle inputs \<Longrightarrow> state s \<noteq> STATE_PLAYING \<Longrightarrow> main_loop cfg inputs (True, s) = Inr (True, s)"
proof (induction inputs)
  case Nil
  show ?case by simp
next
  case (Cons x xs)
  obtain ev tick tick' rnd where x: "x = (ev, tick, tick', rnd)" by (cases x)
  from Cons.prems(1) have e: "ev = None" and i: "idle xs"
    by (simp_all add: idle_def x)
  show ?case
    using Cons.IH [OF i Cons.prems(2)] Cons.prems(2)
    by (simp add: x e idle_pass_stopped)
qed

lemma idle_playing:
  assumes "idle inputs" and "state s = STATE_PLAYING"
  shows "main_loop cfg inputs (True, s) =
     Inr (True, if within_limit cfg (elapsed_time s) (start_time s) (check_ticks inputs) then s
                else s\<lparr>state := STATE_LOST, elapsed_time := MAX_TIME_MS cfg\<rparr>)"
  using assms(1)
proof (induction inputs)
  case Nil
  show ?case by (simp add: within_limit_def check_ticks_def)
next
  case (Cons x xs)
  obtain ev tick tick' rnd where x: "x = (ev, tick, tick', rnd)" by (cases x)
  from Cons.prems have e: "ev = None" and i: "idle xs"
    by (simp_all add: idle_def x)
  show ?case
  proof (cases "elapsed_time s + (tick' - start_time s) < MAX_TIME_MS cfg")
    case True
    then have "loop_body cfg None tick tick' rnd (True, s) = Inr (True, s)"
      using assms(2) by (simp add: loop_body_def check_time_limit_def Let_def not_le [symmetric])
    with True Cons.IH [OF i] show ?thesis
      by (simp add: x e within_limit_def check_ticks_def)
  next
    case False
    let ?l = "s\<lparr>state := STATE_LOST, elapsed_time := MAX_TIME_MS cfg\<rparr>"
    from False have "loop_body cfg None tick tick' rnd (True, s) = Inr (True, ?l)"
      using assms(2) by (simp add: loop_body_def check_time_limit_def Let_def not_less)
    moreover have "main_loop cfg xs (True, ?l) = Inr (True, ?l)"
      using i by (rule idle_stopped) simp
    ultimately show ?thesis
      using False by (simp add: x e within_limit_def check_ticks_def)
  qed
qed


lemma stop_pass:
  assumes "state st = STATE_PLAYING"
    and "stop = \<lparr>type = InputTypePress, key = InputKeyBack\<rparr> \<and> sp = STATE_PAUSED
         \<or> stop = \<lparr>type = InputTypeLong, key = InputKeyOk\<rparr> \<and> sp = STATE_REVEAL"
  shows "loop_body cfg (Some stop) t c r (True, st) =
     Inr (True, st\<lparr>state := sp, elapsed_time := elapsed_time st + (t - start_time st)\<rparr>)"
proof -
  from assms(2) consider
    "stop = \<lparr>type = InputTypePress, key = InputKeyBack\<rparr>" "sp = STATE_PAUSED"
    | "stop = \<lparr>type = InputTypeLong, key = InputKeyOk\<rparr>" "sp = STATE_REVEAL"
    by blast
  then show ?thesis
  proof cases
    case 1
    then show ?thesis
      using assms(1) by (simp add: loop_body_def handle_event_def check_time_limit_def)
  next
    case 2
    then show ?thesis
      using assms(1) by (simp add: loop_body_def handle_event_def check_time_limit_def)
  qed
qed

lemma go_event:
  assumes "state s = STATE_PAUSED \<and> (type go = InputTypePress \<or> type go = InputTypeRepeat)
         \<or> state s = STATE_REVEAL
            \<and> (type go = InputTypePress \<or> type go = InputTypeRepeat \<or> type go = InputTypeLong)"
    and "key go = InputKeyOk"
  shows "handle_event cfg go t r (True, s) = Inr (True, s\<lparr>state := STATE_PLAYING, start_time := t\<rparr>)"
proof (cases "type go = InputTypeLong")
  case True
  with assms have "state s = STATE_REVEAL" by auto
  with True assms(2) show ?thesis
    by (simp add: handle_event_def)
next
  case False
  with assms(1) have t: "type go = InputTypePress \<or> type go = InputTypeRepeat"
    and s: "state s = STATE_PAUSED \<or> state s = STATE_REVEAL"
    by auto
  from s have "on_ok cfg t r s = Inr (s\<lparr>state := STATE_PLAYING, start_time := t\<rparr>)"
    by (auto simp: on_ok_def)
  then show ?thesis
    by (simp add: handle_ok [OF t assms(2)])
qed

lemma back_pass_playing:
  "state s = STATE_PLAYING \<Longrightarrow>
     loop_body cfg (Some \<lparr>type = InputTypePress, key = InputKeyBack\<rparr>) t c r (True, s) =
       Inr (True, s\<lparr>state := STATE_PAUSED, elapsed_time := elapsed_time s + (t - start_time s)\<rparr>)"
  by (simp add: loop_body_def handle_event_def check_time_limit_def)

lemma back_pass_lost:
  "state s = STATE_LOST \<Longrightarrow>
     loop_body cfg (Some \<lparr>type = InputTypePress, key = InputKeyBack\<rparr>) t c r (True, s) = Inr (True, s)"
  by (simp add: loop_body_def handle_event_def check_time_limit_def)

lemma stopped_event_unchanged:
  assumes "state s \<noteq> STATE_PLAYING" and "key event \<noteq> InputKeyOk"
  shows "handle_event cfg event t r (running, s) =
     Inr (if type event = InputTypePress \<and> key event = InputKeyBack \<and> state s = STATE_PAUSED
             \<or> type event = InputTypeLong \<and> key event = InputKeyBack
          then False else running, s)"
  using assms by (cases "type event"; cases "key event"; simp add: handle_event_def)

lemma stopped_pass_unchanged:
  assumes "state s \<noteq> STATE_PLAYING" and "key event \<noteq> InputKeyOk"
  shows "\<exists>running'. loop_body cfg (Some event) t c r (running, s) = Inr (running', s)"
  using assms(1)
  by (simp add: loop_body_def stopped_event_unchanged [OF assms] check_time_limit_def)

lemma stop_go_stop:
  fixes cfg :: config and st :: CodeBreakerState and t1 t2 t3 c1 c2 c3 :: "32 word"
  assumes "state st = STATE_PLAYING"
    and "stop = \<lparr>type = InputTypePress, key = InputKeyBack\<rparr>
           \<and> (type go = InputTypePress \<or> type go = InputTypeRepeat)
         \<or> stop = \<lparr>type = InputTypeLong, key = InputKeyOk\<rparr>
           \<and> (type go = InputTypePress \<or> type go = InputTypeRepeat \<or> type go = InputTypeLong)"
    and "key go = InputKeyOk"
    and "idle idle1" and "idle idle2"
  defines "e1 \<equiv> elapsed_time st + (t1 - start_time st)"
  shows "main_loop cfg
           ((Some stop, t1, c1, r1) # idle1 @ (Some go, t2, c2, r2) # idle2
              @ [(Some \<lparr>type = InputTypePress, key = InputKeyBack\<rparr>, t3, c3, r3)]) (True, st) =
         Inr (True,
           if within_limit cfg e1 t2 (c2 # check_ticks idle2)
           then st\<lparr>state := STATE_PAUSED, start_time := t2, elapsed_time := e1 + (t3 - t2)\<rparr>
           else st\<lparr>state := STATE_LOST, start_time := t2, elapsed_time := MAX_TIME_MS cfg\<rparr>)"
proof -
  define sp where "sp = (if stop = \<lparr>type = InputTypePress, key = InputKeyBack\<rparr>
                         then STATE_PAUSED else STATE_REVEAL)"
  define st1 where "st1 = st\<lparr>state := sp, elapsed_time := e1\<rparr>"
  define st2 where "st2 = st1\<lparr>state := STATE_PLAYING, start_time := t2\<rparr>"
  define lost where "lost = st2\<lparr>state := STATE_LOST, elapsed_time := MAX_TIME_MS cfg\<rparr>"
  define st3 where "st3 = st2\<lparr>state := STATE_PAUSED, elapsed_time := e1 + (t3 - t2)\<rparr>"
  define pb where "pb = (Some \<lparr>type = InputTypePress, key = InputKeyBack\<rparr>, t3, c3, r3)"
  have sp: "stop = \<lparr>type = InputTypePress, key = InputKeyBack\<rparr> \<and> sp = STATE_PAUSED
         \<or> stop = \<lparr>type = InputTypeLong, key = InputKeyOk\<rparr> \<and> sp = STATE_REVEAL"
    using assms(2) by (auto simp: sp_def)
  have p1: "loop_body cfg (Some stop) t1 c1 r1 (True, st) = Inr (True, st1)"
    unfolding st1_def e1_def using assms(1) sp by (rule stop_pass)
  have n1: "state st1 \<noteq> STATE_PLAYING"
    using sp by (auto simp: st1_def)
  have m1: "main_loop cfg idle1 (True, st1) = Inr (True, st1)"
    using assms(4) n1 by (rule idle_stopped)
  have g: "state st1 = STATE_PAUSED \<and> (type go = InputTypePress \<or> type go = InputTypeRepeat)
         \<or> state st1 = STATE_REVEAL
            \<and> (type go = InputTypePress \<or> type go = InputTypeRepeat \<or> type go = InputTypeLong)"
    using assms(2) sp by (auto simp: st1_def)
  have h2: "handle_event cfg go t2 r2 (True, st1) = Inr (True, st2)"
    unfolding st2_def using g assms(3) by (rule go_event)
  have m2: "main_loop cfg ((Some go, t2, c2, r2) # idle2) (True, st1) =
            main_loop cfg ((None, t2, c2, r2) # idle2) (True, st2)"
    by (simp add: loop_body_def h2)
  have i2: "idle ((None, t2, c2, r2) # idle2)"
    using assms(5) by (simp add: idle_def)
  have f2: "state st2 = STATE_PLAYING" "elapsed_time st2 = e1" "start_time st2 = t2"
    by (simp_all add: st2_def st1_def)
  have c2: "check_ticks ((None, t2, c2, r2) # idle2) = c2 # check_ticks idle2"
    by (simp add: check_ticks_def)
  have m3: "main_loop cfg ((None, t2, c2, r2) # idle2) (True, st2) =
     Inr (True, if within_limit cfg e1 t2 (c2 # check_ticks idle2) then st2 else lost)"
    using idle_playing [OF i2 f2(1), of cfg] unfolding f2 c2 lost_def .
  have p3: "main_loop cfg [pb] (True, st2) = Inr (True, st3)"
    unfolding pb_def st3_def f2(2,3) [symmetric]
    by (simp add: back_pass_playing [OF f2(1)])
  have l: "state lost = STATE_LOST" by (simp add: lost_def)
  have p4: "main_loop cfg [pb] (True, lost) = Inr (True, lost)"
    unfolding pb_def by (simp add: back_pass_lost [OF l])
  have "main_loop cfg ((Some stop, t1, c1, r1) # idle1 @ (Some go, t2, c2, r2) # idle2 @ [pb])
          (True, st)
      = main_loop cfg (idle1 @ ((Some go, t2, c2, r2) # idle2) @ [pb]) (True, st1)"
    by (simp add: p1)
  also have "\<dots> = main_loop cfg (((Some go, t2, c2, r2) # idle2) @ [pb]) (True, st1)"
    by (simp only: main_loop_append [of cfg idle1] m1 sum.case)
  also have "\<dots> = main_loop cfg [pb]
        (True, if within_limit cfg e1 t2 (c2 # check_ticks idle2) then st2 else lost)"
    by (simp only: main_loop_append [of cfg "(Some go, t2, c2, r2) # idle2"] m2 m3 sum.case)
  also have "\<dots> = Inr (True, if within_limit cfg e1 t2 (c2 # check_ticks idle2) then st3 else lost)"
    using p3 p4 by simp
  finally have "main_loop cfg
      ((Some stop, t1, c1, r1) # idle1 @ (Some go, t2, c2, r2) # idle2 @ [pb]) (True, st)
      = Inr (True, if within_limit cfg e1 t2 (c2 # check_ticks idle2) then st3 else lost)" .
  moreover have "st3 = st\<lparr>state := STATE_PAUSED, start_time := t2, elapsed_time := e1 + (t3 - t2)\<rparr>"
    by (simp add: st3_def st2_def st1_def)
  moreover have "lost = st\<lparr>state := STATE_LOST, start_time := t2, elapsed_time := MAX_TIME_MS cfg\<rparr>"
    by (simp add: lost_def st2_def st1_def)
  ultimately show ?thesis
    unfolding pb_def by simp
qed


lemma unat_two_intervals:
  fixes start t1 t2 t3 :: "32 word"
  assumes "start \<le> t1" and "t1 \<le> t2" and "t2 \<le> t3"
  shows "unat ((t1 - start) + (t3 - t2)) = (unat t1 - unat start) + (unat t3 - unat t2)"
proof -
  have u1: "unat (t1 - start) = unat t1 - unat start"
    using assms(1) by (rule unat_sub)
  have u3: "unat (t3 - t2) = unat t3 - unat t2"
    using assms(3) by (rule unat_sub)
  have "unat t1 \<le> unat t2" "unat t2 \<le> unat t3" "unat start \<le> unat t1"
    using assms by (simp_all add: word_le_nat_alt)
  moreover have "unat t3 < 2 ^ LENGTH(32)" by (rule unsigned_less)
  ultimately have "unat (t1 - start) + unat (t3 - t2) < 2 ^ LENGTH(32)"
    unfolding u1 u3 by arith
  then have "unat ((t1 - start) + (t3 - t2)) = unat (t1 - start) + unat (t3 - t2)"
    by (rule unat_add_lem [THEN iffD1])
  then show ?thesis
    unfolding u1 u3 .
qed

subsection \<open>The example games\<close>

lemma sized_game_guess: "sized_state hirn_v02 game_guess"
  using sized_zeroed [of hirn_v02]
  by (simp add: sized_state_def game_guess_def game_start_def hirn_v02_def)

lemma example_counts:
  "(\<Sum>c\<in>set [2, 1, 3, 5::nat] \<union> set [1, 2, 3, 4].
       min (count_list [2, 1, 3, 5] c) (count_list [1, 2, 3, 4] c)) = 3"
  "length (filter (\<lambda>i. [2, 1, 3, 5::nat] ! i = [1, 2, 3, 4] ! i) [0..<NUM_PEGS hirn_v02]) = 1"
  "(\<Sum>c\<in>set [2, 1, 3, 5::nat] \<union> set [1, 2, 3, 4].
       min (count_list (unmatched (NUM_PEGS hirn_v02) [2, 1, 3, 5] [1, 2, 3, 4] [2, 1, 3, 5]) c)
           (count_list (unmatched (NUM_PEGS hirn_v02) [2, 1, 3, 5] [1, 2, 3, 4] [1, 2, 3, 4]) c)) = 2"
proof -
  have p: "NUM_PEGS hirn_v02 = 4" by (simp add: hirn_v02_def)
  have s: "set [2, 1, 3, 5::nat] \<union> set [1, 2, 3, 4] = {1, 2, 3, 4, 5}"
    by auto
  have f: "filter (\<lambda>i. [2, 1, 3, 5::nat] ! i = [1, 2, 3, 4] ! i) [0..<4] = [2]"
    by (simp add: upt_rec)
  have u: "unmatched 4 [2, 1, 3, 5] [1, 2, 3, 4] [2, 1, 3, 5] = [2, 1, 5]"
      "unmatched 4 [2, 1, 3, 5] [1, 2, 3, 4] [1, 2, 3, 4] = [1, 2, 4]"
    by (simp_all add: unmatched_def upt_rec)
  show "(\<Sum>c\<in>set [2, 1, 3, 5::nat] \<union> set [1, 2, 3, 4].
       min (count_list [2, 1, 3, 5] c) (count_list [1, 2, 3, 4] c)) = 3"
    unfolding s by simp
  show "length (filter (\<lambda>i. [2, 1, 3, 5::nat] ! i = [1, 2, 3, 4] ! i) [0..<NUM_PEGS hirn_v02]) = 1"
    unfolding p f by simp
  show "(\<Sum>c\<in>set [2, 1, 3, 5::nat] \<union> set [1, 2, 3, 4].
       min (count_list (unmatched (NUM_PEGS hirn_v02) [2, 1, 3, 5] [1, 2, 3, 4] [2, 1, 3, 5]) c)
           (count_list (unmatched (NUM_PEGS hirn_v02) [2, 1, 3, 5] [1, 2, 3, 4] [1, 2, 3, 4]) c)) = 2"
    unfolding p s u by simp
qed

lemma score_example:
  "score hirn_v02 [2, 1, 3, 5] [1, 2, 3, 4] =
     Inr \<lparr>feedback = [FEEDBACK_BLACK, FEEDBACK_WHITE, FEEDBACK_WHITE, FEEDBACK_NONE],
          feedback_idx = 3, secret_used = [True, True, True, False],
          guess_used = [False, False, True, False]\<rparr>"
  by (simp add: score_def first_pass_def hirn_v02_def scoring_init_def upt_rec
      first_pass_body_def second_pass_body_def store_def numeral_eq_Suc)

lemma guess_fields:
  "state game_guess = STATE_PLAYING" "attempts_used game_guess = 0"
  "current_guess game_guess = [2, 1, 3, 5]" "secret_code game_guess = [1, 2, 3, 4]"
  "start_time game_guess = 0" "elapsed_time game_guess = 0"
  by (simp_all add: game_guess_def game_start_def zeroed_def)

lemma guess_guard:
  "is_guess_complete hirn_v02 game_guess" "is_guess_different hirn_v02 game_guess"
  by (simp_all add: is_guess_complete_def is_guess_different_def guess_fields hirn_v02_def
      COLOR_NONE_def upt_rec)

lemma on_ok_example: "on_ok hirn_v02 20000 rand_count game_guess = Inr game_scored"
proof -
  have "evaluate_guess hirn_v02 20000 game_guess = Inr game_scored"
    unfolding evaluate_guess_def guess_fields score_example
    by (simp add: hirn_v02_def upt_rec game_scored_def guess_fields)
  then show ?thesis
    by (simp add: on_ok_def guess_guard guess_fields)
qed

lemma score_example_win:
  "score hirn_v02 [1, 2, 3, 4] [1, 2, 3, 4] =
     Inr \<lparr>feedback = [FEEDBACK_BLACK, FEEDBACK_BLACK, FEEDBACK_BLACK, FEEDBACK_BLACK],
          feedback_idx = 4, secret_used = [True, True, True, True],
          guess_used = [True, True, True, True]\<rparr>"
  by (simp add: score_def first_pass_def hirn_v02_def scoring_init_def upt_rec
      first_pass_body_def second_pass_body_def store_def numeral_eq_Suc)

lemma scored_fields:
  "state game_scored = STATE_PLAYING" "attempts_used game_scored = 1"
  "current_guess game_scored = [2, 1, 3, 5]" "secret_code game_scored = [1, 2, 3, 4]"
  "start_time game_scored = 0" "elapsed_time game_scored = 0"
  "guess_history game_scored ! 0 = [2, 1, 3, 5]"
  by (simp_all add: game_scored_def guess_fields)
    (simp add: game_guess_def game_start_def zeroed_def hirn_v02_def)

lemma win_fields:
  "state game_win = STATE_PLAYING" "attempts_used game_win = 1"
  "current_guess game_win = [1, 2, 3, 4]" "secret_code game_win = [1, 2, 3, 4]"
  "start_time game_win = 0" "elapsed_time game_win = 0"
  "guess_history game_win ! 0 = [2, 1, 3, 5]"
  by (simp_all add: game_win_def scored_fields)

lemma win_guard:
  "is_guess_complete hirn_v02 game_win" "is_guess_different hirn_v02 game_win"
  by (simp_all add: is_guess_complete_def is_guess_different_def win_fields hirn_v02_def
      COLOR_NONE_def upt_rec)

lemma on_ok_example_win: "on_ok hirn_v02 40000 rand_count game_win = Inr game_won"
proof -
  have "evaluate_guess hirn_v02 40000 game_win = Inr game_won"
    unfolding evaluate_guess_def win_fields score_example_win
    by (simp add: hirn_v02_def upt_rec game_won_def win_fields)
  then show ?thesis
    by (simp add: on_ok_def win_guard win_fields)
qed

lemma sized_game_scored: "sized_state hirn_v02 game_scored"
  using sized_evaluate_guess [OF sized_game_guess, of 20000 game_scored] on_ok_example
  by (simp add: submit_is_evaluate [OF guess_fields(1) guess_guard])

lemma sized_game_win: "sized_state hirn_v02 game_win"
  unfolding game_win_def by (rule sized_update_guess [OF sized_game_scored]) (simp add: hirn_v02_def)

lemma paused_fields:
  "state game_paused = STATE_PAUSED" "attempts_used game_paused = 1"
  "elapsed_time game_paused = 25000" "start_time game_paused = 0"
  by (simp_all add: game_paused_def scored_fields)

lemma scored_same_guess: "\<not> is_guess_different hirn_v02 game_scored"
  by (simp add: is_guess_different_def scored_fields hirn_v02_def upt_rec)

lemma fair_rand_count:
  assumes "0 < n"
  shows "fair_source n rand_count"
  unfolding fair_source_def
proof (intro allI impI)
  fix k c assume "c < n"
  have "k \<le> k * n" using assms by (cases n) simp_all
  then have "k \<le> k * n + c" by (rule trans_le_add1)
  moreover have "rand_count (k * n + c) mod n = c"
    using \<open>c < n\<close> by (simp add: rand_count_def)
  ultimately show "\<exists>j\<ge>k. rand_count j mod n = c" by blast
qed

lemma draw_example:
  "draw_unused 6 rand_count [False, False, False, False, False, False, False] 0 = Some (1, 1)"
  "draw_unused 6 rand_count [False, True, False, False, False, False, False] (Suc 0) = Some (2, 2)"
  "draw_unused 6 rand_count [False, True, True, False, False, False, False] 2 = Some (3, 3)"
  "draw_unused 6 rand_count [False, True, True, True, False, False, False] 3 = Some (4, 4)"
proof -
  show "draw_unused 6 rand_count [False, False, False, False, False, False, False] 0 = Some (1, 1)"
    using draw_unused_hit [of "[False, False, False, False, False, False, False]" rand_count 0 6]
    by (simp add: rand_count_def)
  show "draw_unused 6 rand_count [False, True, False, False, False, False, False] (Suc 0) = Some (2, 2)"
    using draw_unused_hit [of "[False, True, False, False, False, False, False]" rand_count "Suc 0" 6]
    by (simp add: rand_count_def)
  show "draw_unused 6 rand_count [False, True, True, False, False, False, False] 2 = Some (3, 3)"
    using draw_unused_hit [of "[False, True, True, False, False, False, False]" rand_count 2 6]
    by (simp add: rand_count_def)
  show "draw_unused 6 rand_count [False, True, True, True, False, False, False] 3 = Some (4, 4)"
    using draw_unused_hit [of "[False, True, True, True, False, False, False]" rand_count 3 6]
    by (simp add: rand_count_def)
qed

lemma generate_example:
  "generate_secret_code hirn_v02 rand_count (zeroed hirn_v02) = Some game_start"
proof -
  have u: "[0..<4] = [0, 1, 2, 3]" by (simp add: upt_rec)
  have r: "replicate 7 False = [False, False, False, False, False, False, False]"
    "replicate 4 COLOR_NONE = [COLOR_NONE, COLOR_NONE, COLOR_NONE, COLOR_NONE]"
    by (simp_all add: numeral_eq_Suc)
  have "no_repeat_loop [0..<4] 6 rand_count (replicate 7 False) (replicate 4 COLOR_NONE) 0
      = Some ([1, 2, 3, 4], 4)"
    unfolding u r by (simp add: draw_example)
  then show ?thesis
    by (simp add: generate_secret_code_def hirn_v02_def zeroed_def game_start_def)
qed

lemma hirn_init_example: "hirn_init hirn_v02 0 rand_count = Inr game_start"
proof -
  have "zeroed hirn_v02\<lparr>state := STATE_PLAYING, cursor_position := 0, attempts_used := 0,
          start_time := 0, elapsed_time := 0,
          current_guess := replicate (NUM_PEGS hirn_v02) COLOR_NONE\<rparr> = zeroed hirn_v02"
    by (simp add: zeroed_def)
  then show ?thesis
    by (simp add: hirn_init_def new_round_def generate_example)
qed

lemma few_colours_fields:
  "\<not> COLOR_REPEAT few_colours" "NUM_COLORS few_colours = 3" "NUM_PEGS few_colours = 4"
  by (simp_all add: few_colours_def hirn_v02_def)

lemma sized_game_won: "sized_state hirn_v02 game_won"
  using sized_evaluate_guess [OF sized_game_win, of 40000 game_won] on_ok_example_win
  by (simp add: submit_is_evaluate [OF win_fields(1) win_guard])

lemma tiny_fields:
  "COLOR_REPEAT tiny_game = False" "NUM_COLORS tiny_game = 2" "NUM_PEGS tiny_game = 1"
  "MAX_ATTEMPTS tiny_game = 1" "MAX_TIME_MS tiny_game = 1200000"
  by (simp_all add: tiny_game_def)

lemma tiny_well_configured: "well_configured tiny_game"
  by (simp add: well_configured_def tiny_fields)

lemma tiny_zeroed:
  "zeroed tiny_game = \<lparr>state = STATE_PLAYING, secret_code = [COLOR_NONE],
      current_guess = [COLOR_NONE], cursor_position = 0, attempts_used = 0, start_time = 0,
      elapsed_time = 0, guess_history = [[COLOR_NONE]], feedback_history = [[FEEDBACK_NONE]]\<rparr>"
  by (simp add: zeroed_def tiny_fields)

lemma tiny_init: "hirn_init tiny_game 0 rand_count = Inr tiny_start"
proof -
  have "draw_unused 2 rand_count [False, False, False] 0 = Some (1, 1)"
    using draw_unused_hit [of "[False, False, False]" rand_count 0 2]
    by (simp add: rand_count_def)
  then have "no_repeat_loop [0..<1] 2 rand_count (replicate 3 False) [COLOR_NONE] 0 = Some ([1], 1)"
    by (simp add: numeral_eq_Suc)
  then show ?thesis
    by (simp add: hirn_init_def new_round_def generate_secret_code_def tiny_fields tiny_zeroed
        tiny_start_def)
qed

lemma tiny_up1:
  "loop_body tiny_game (Some \<lparr>type = InputTypePress, key = InputKeyUp\<rparr>) 1000 1001 rand_count
     (True, tiny_start) = Inr (True, tiny_start\<lparr>current_guess := [1]\<rparr>)"
  by (simp add: loop_body_def handle_event_def check_time_limit_def tiny_fields tiny_start_def
      tiny_zeroed COLOR_NONE_def)

lemma tiny_up2:
  "loop_body tiny_game (Some \<lparr>type = InputTypePress, key = InputKeyUp\<rparr>) 2000 2001 rand_count
     (True, tiny_start\<lparr>current_guess := [1]\<rparr>) = Inr (True, tiny_guess)"
  by (simp add: loop_body_def handle_event_def check_time_limit_def tiny_fields tiny_start_def
      tiny_zeroed tiny_guess_def COLOR_NONE_def)

lemma tiny_guess_fields:
  "state tiny_guess = STATE_PLAYING" "attempts_used tiny_guess = 0"
  "current_guess tiny_guess = [2]" "secret_code tiny_guess = [1]"
  "start_time tiny_guess = 0" "elapsed_time tiny_guess = 0"
  by (simp_all add: tiny_guess_def tiny_start_def tiny_zeroed)

lemma tiny_guard:
  "is_guess_complete tiny_game tiny_guess" "is_guess_different tiny_game tiny_guess"
  by (simp_all add: is_guess_complete_def is_guess_different_def tiny_guess_fields tiny_fields
      COLOR_NONE_def)

lemma tiny_score:
  "score tiny_game [2] [1] =
     Inr \<lparr>feedback = [FEEDBACK_NONE], feedback_idx = 0, secret_used = [False],
          guess_used = [False]\<rparr>"
  by (simp add: score_def first_pass_def tiny_fields scoring_init_def
      first_pass_body_def second_pass_body_def)

lemma tiny_on_ok: "on_ok tiny_game 3000 rand_count tiny_guess = Inr tiny_lost"
proof -
  have "evaluate_guess tiny_game 3000 tiny_guess = Inr tiny_lost"
    unfolding evaluate_guess_def tiny_guess_fields tiny_score
    by (simp add: tiny_fields tiny_lost_def tiny_guess_fields)
      (simp add: tiny_guess_def tiny_start_def tiny_zeroed)
  then show ?thesis
    by (simp add: on_ok_def tiny_guard tiny_guess_fields)
qed

lemma tiny_ok:
  "loop_body tiny_game (Some \<lparr>type = InputTypePress, key = InputKeyOk\<rparr>) 3000 3001 rand_count
     (True, tiny_guess) = Inr (True, tiny_lost)"
  by (simp add: loop_body_def handle_event_def tiny_on_ok check_time_limit_def tiny_lost_def)

lemma reachable_tiny:
  "reachable tiny_game tiny_start" "reachable tiny_game tiny_guess" "reachable tiny_game tiny_lost"
proof -
  show 0: "reachable tiny_game tiny_start"
    using tiny_init by (rule reachable.start)
  from 0 tiny_up1 have "reachable tiny_game (tiny_start\<lparr>current_guess := [1]\<rparr>)"
    by (rule reachable.pass)
  from this tiny_up2 show 2: "reachable tiny_game tiny_guess"
    by (rule reachable.pass)
  from 2 tiny_ok show "reachable tiny_game tiny_lost"
    by (rule reachable.pass)
qed

lemma reachable_game_start: "reachable hirn_v02 game_start"
  using hirn_init_example by (rule reachable.start)

lemma start_fields:
  "state game_start = STATE_PLAYING" "attempts_used game_start = 0"
  "start_time game_start = 0" "elapsed_time game_start = 0"
  by (simp_all add: game_start_def zeroed_def)

lemma late_pause_passes:
  "loop_body hirn_v02 None 1199900 1199950 rand_count (True, game_start) = Inr (True, game_start)"
  "loop_body hirn_v02 (Some \<lparr>type = InputTypePress, key = InputKeyBack\<rparr>) 1200020 1200021
     rand_count (True, game_start) = Inr (True, game_late_pause)"
proof -
  have m: "MAX_TIME_MS hirn_v02 = 1200000" by (simp add: hirn_v02_def)
  show "loop_body hirn_v02 None 1199900 1199950 rand_count (True, game_start)
      = Inr (True, game_start)"
    by (simp add: loop_body_def check_time_limit_def start_fields m)
  show "loop_body hirn_v02 (Some \<lparr>type = InputTypePress, key = InputKeyBack\<rparr>) 1200020 1200021
     rand_count (True, game_start) = Inr (True, game_late_pause)"
    by (simp add: loop_body_def handle_event_def check_time_limit_def start_fields
        game_late_pause_def)
qed

lemma reachable_late_pause: "reachable hirn_v02 game_late_pause"
proof -
  from reachable_game_start late_pause_passes(1) have "reachable hirn_v02 game_start"
    by (rule reachable.pass)
  from this late_pause_passes(2) show ?thesis
    by (rule reachable.pass)
qed

lemma tiny_lost_fields:
  "state tiny_lost = STATE_LOST" "attempts_used tiny_lost = 1"
  "guess_history tiny_lost = [[2]]" "secret_code tiny_lost = [1]"
  "elapsed_time tiny_lost = 3000"
  by (simp_all add: tiny_lost_def tiny_guess_fields)

lemma start_more_fields:
  "cursor_position game_start = 0"
  "current_guess game_start = [COLOR_NONE, COLOR_NONE, COLOR_NONE, COLOR_NONE]"
  by (simp_all add: game_start_def zeroed_def hirn_v02_def numeral_eq_Suc)

lemma v02_fields:
  "NUM_COLORS hirn_v02 = 6" "NUM_PEGS hirn_v02 = 4" "MAX_ATTEMPTS hirn_v02 = 20"
  "MAX_TIME_MS hirn_v02 = 1200000" "COLOR_REPEAT hirn_v02 = False"
  by (simp_all add: hirn_v02_def)

lemma first_guess_run:
  "main_loop hirn_v02 keys_first_guess (True, game_start) = Inr (True, game_guess)"
proof -
  have "main_loop hirn_v02 keys_first_guess (True, game_start)
      = Inr (True, game_start\<lparr>current_guess := [2, 1, 3, 5], cursor_position := 0\<rparr>)"
    by (simp add: keys_first_guess_def press_def loop_body_def handle_event_def
        check_time_limit_def start_fields start_more_fields v02_fields COLOR_NONE_def)
  moreover have "game_start\<lparr>current_guess := [2, 1, 3, 5], cursor_position := 0\<rparr> = game_guess"
    by (simp add: game_guess_def game_start_def zeroed_def)
  ultimately show ?thesis by simp
qed

lemma scored_cursor: "cursor_position game_scored = 0"
  by (simp add: game_scored_def game_guess_def start_more_fields)

lemma second_guess_run:
  "main_loop hirn_v02 keys_second_guess (True, game_scored) = Inr (True, game_win)"
proof -
  have "main_loop hirn_v02 keys_second_guess (True, game_scored)
      = Inr (True, game_scored\<lparr>current_guess := [1, 2, 3, 4], cursor_position := 0\<rparr>)"
    by (simp add: keys_second_guess_def press_def loop_body_def handle_event_def
        check_time_limit_def scored_fields scored_cursor v02_fields COLOR_NONE_def)
  moreover have "game_scored\<lparr>current_guess := [1, 2, 3, 4], cursor_position := 0\<rparr> = game_win"
    by (simp add: game_win_def game_scored_def game_guess_def game_start_def zeroed_def)
  ultimately show ?thesis by simp
qed

lemma submit_runs:
  "main_loop hirn_v02 [press InputKeyOk 20000] (True, game_guess) = Inr (True, game_scored)"
  "main_loop hirn_v02 [press InputKeyBack 25000] (True, game_scored) = Inr (True, game_paused)"
  "main_loop hirn_v02 [press InputKeyOk 40000] (True, game_win) = Inr (True, game_won)"
proof -
  show "main_loop hirn_v02 [press InputKeyOk 20000] (True, game_guess) = Inr (True, game_scored)"
    by (simp add: press_def loop_body_def handle_event_def on_ok_example check_time_limit_def
        scored_fields v02_fields)
  show "main_loop hirn_v02 [press InputKeyBack 25000] (True, game_scored) = Inr (True, game_paused)"
    by (simp add: press_def loop_body_def handle_event_def check_time_limit_def
        scored_fields game_paused_def)
  show "main_loop hirn_v02 [press InputKeyOk 40000] (True, game_win) = Inr (True, game_won)"
    by (simp add: press_def loop_body_def handle_event_def on_ok_example_win check_time_limit_def
        game_won_def)
qed

lemma reachable_examples:
  "reachable hirn_v02 game_guess" "reachable hirn_v02 game_scored"
  "reachable hirn_v02 game_paused" "reachable hirn_v02 game_win" "reachable hirn_v02 game_won"
proof -
  show g: "reachable hirn_v02 game_guess"
    using reachable_game_start first_guess_run by (rule reachable_main_loop)
  show s: "reachable hirn_v02 game_scored"
    using g submit_runs(1) by (rule reachable_main_loop)
  show "reachable hirn_v02 game_paused"
    using s submit_runs(2) by (rule reachable_main_loop)
  show w: "reachable hirn_v02 game_win"
    using s second_guess_run by (rule reachable_main_loop)
  show "reachable hirn_v02 game_won"
    using w submit_runs(3) by (rule reachable_main_loop)
qed

subsection \<open>C1: the scorer is correct, and a guess wins exactly when it is the secret\<close>

text \<open>
  Claim C1.  For every guess and secret of \<^verbatim>\<open>NUM_PEGS\<close> entries the scorer returns
  (no store leaves the feedback row), the number of pegs it emitted is the black count
  plus the white count and is at most \<^verbatim>\<open>NUM_PEGS\<close>, and the black count is
  \<^verbatim>\<open>NUM_PEGS\<close> exactly when guess and secret are equal.  A submitted guess (OK while
  playing, with a complete guess that differs from the last one) is scored into the row
  of this attempt, and the game is won exactly when that row is all black, which is
  exactly when the guess is the secret.
\<close>

theorem scoring_correct:
  assumes "length guess = NUM_PEGS cfg" and "length secret = NUM_PEGS cfg"
    and "sized_state cfg st" and "state st = STATE_PLAYING"
    and "is_guess_complete cfg st" and "is_guess_different cfg st"
    and "attempts_used st < MAX_ATTEMPTS cfg"
  shows "(\<exists>a. score cfg guess secret = Inr a
            \<and> feedback_idx a = black (feedback a) + white (feedback a)
            \<and> black (feedback a) + white (feedback a) \<le> NUM_PEGS cfg
            \<and> (black (feedback a) = NUM_PEGS cfg \<longleftrightarrow> guess = secret))
       \<and> (\<exists>a st'. score cfg (current_guess st) (secret_code st) = Inr a
            \<and> on_ok cfg tick rnd st = Inr st'
            \<and> feedback_history st' ! attempts_used st = feedback a
            \<and> (state st' = STATE_WON \<longleftrightarrow> black (feedback a) = NUM_PEGS cfg)
            \<and> (state st' = STATE_WON \<longleftrightarrow> current_guess st = secret_code st))"
proof
  from score_summary [OF assms(1,2)] black_full_iff [OF assms(1,2)]
  show "\<exists>a. score cfg guess secret = Inr a
            \<and> feedback_idx a = black (feedback a) + white (feedback a)
            \<and> black (feedback a) + white (feedback a) \<le> NUM_PEGS cfg
            \<and> (black (feedback a) = NUM_PEGS cfg \<longleftrightarrow> guess = secret)"
    by auto
next
  have len: "length (current_guess st) = NUM_PEGS cfg" "length (secret_code st) = NUM_PEGS cfg"
    and hist: "attempts_used st < length (feedback_history st)"
    using assms(3,7) by (simp_all add: sized_state_def)
  have ok: "on_ok cfg tick rnd st = evaluate_guess cfg tick st"
    using assms(4-6) by (simp add: on_ok_def)
  from evaluate_guess_returns [OF assms(7), of tick] obtain st'
    where st': "evaluate_guess cfg tick st = Inr st'" by blast
  from evaluate_guess_fields [OF st'] obtain a where
    a: "score cfg (current_guess st) (secret_code st) = Inr a"
    and fh: "feedback_history st' = (feedback_history st)[attempts_used st := feedback a]"
    and ph: "state st' =
          (if list_all (\<lambda>i. current_guess st ! i = secret_code st ! i) [0..<NUM_PEGS cfg]
           then STATE_WON
           else if MAX_ATTEMPTS cfg \<le> attempts_used st + 1 then STATE_LOST else state st)"
    by blast
  have won: "state st' = STATE_WON \<longleftrightarrow> current_guess st = secret_code st"
    using ph assms(4) all_equal_iff [OF len] by (simp split: if_splits)
  from score_summary [OF len] a
  have "black (feedback a) = matches (current_guess st) (secret_code st) (NUM_PEGS cfg)"
    by auto
  then have "black (feedback a) = NUM_PEGS cfg \<longleftrightarrow> current_guess st = secret_code st"
    using black_full_iff [OF len] by simp
  with won a st' ok fh hist
  show "\<exists>a st'. score cfg (current_guess st) (secret_code st) = Inr a
            \<and> on_ok cfg tick rnd st = Inr st'
            \<and> feedback_history st' ! attempts_used st = feedback a
            \<and> (state st' = STATE_WON \<longleftrightarrow> black (feedback a) = NUM_PEGS cfg)
            \<and> (state st' = STATE_WON \<longleftrightarrow> current_guess st = secret_code st)"
    by auto
qed

theorem scoring_correct_witness:
  "(\<exists>a. score hirn_v02 [2, 1, 3, 5] [1, 2, 3, 4] = Inr a
        \<and> feedback_idx a = black (feedback a) + white (feedback a)
        \<and> black (feedback a) + white (feedback a) \<le> 4
        \<and> black (feedback a) \<noteq> 4)
   \<and> (\<exists>a st'. score hirn_v02 [2, 1, 3, 5] [1, 2, 3, 4] = Inr a
        \<and> on_ok hirn_v02 20000 rand_count game_guess = Inr st'
        \<and> feedback_history st' ! 0 = feedback a
        \<and> state st' \<noteq> STATE_WON)"
proof -
  have "is_guess_complete hirn_v02 game_guess"
    by (simp add: is_guess_complete_def game_guess_def game_start_def hirn_v02_def COLOR_NONE_def upt_rec)
  moreover have "is_guess_different hirn_v02 game_guess"
    by (simp add: is_guess_different_def game_guess_def game_start_def zeroed_def)
  moreover have "state game_guess = STATE_PLAYING" "attempts_used game_guess < MAX_ATTEMPTS hirn_v02"
    "current_guess game_guess = [2, 1, 3, 5]" "secret_code game_guess = [1, 2, 3, 4]"
    "attempts_used game_guess = 0"
    by (simp_all add: game_guess_def game_start_def zeroed_def hirn_v02_def)
  moreover have "length [2, 1, 3, 5::nat] = NUM_PEGS hirn_v02" "length [1, 2, 3, 4::nat] = NUM_PEGS hirn_v02"
    "NUM_PEGS hirn_v02 = 4"
    by (simp_all add: hirn_v02_def)
  ultimately show ?thesis
    using scoring_correct [of "[2, 1, 3, 5]" hirn_v02 "[1, 2, 3, 4]" game_guess 20000 rand_count]
      sized_game_guess
    by simp blast
qed

subsection \<open>C2: the pegs emitted, and no peg counted twice\<close>

text \<open>
  Claim C2.  For every guess and secret of \<^verbatim>\<open>NUM_PEGS\<close> entries, the number of pegs the
  two passes emit (the final \<^verbatim>\<open>feedback_idx\<close>, black plus white) is the sum over the
  colours of the smaller of the colour's counts in guess and secret.  The black count is
  the number of positions where guess and secret agree, the white count is the same sum
  taken over the entries at the other positions only, and at a position that the first
  pass counted black the second pass changes nothing: it emits no peg there.
\<close>

theorem feedback_pegs_total:
  assumes "length guess = NUM_PEGS cfg" and "length secret = NUM_PEGS cfg"
  shows "\<exists>a1 a. first_pass cfg guess secret = Inr a1 \<and> score cfg guess secret = Inr a
      \<and> feedback_idx a = black (feedback a) + white (feedback a)
      \<and> black (feedback a) + white (feedback a) =
          (\<Sum>c\<in>set guess \<union> set secret. min (count_list guess c) (count_list secret c))
      \<and> black (feedback a) = length (filter (\<lambda>i. guess ! i = secret ! i) [0..<NUM_PEGS cfg])
      \<and> white (feedback a) =
          (\<Sum>c\<in>set guess \<union> set secret.
              min (count_list (unmatched (NUM_PEGS cfg) guess secret guess) c)
                  (count_list (unmatched (NUM_PEGS cfg) guess secret secret) c))
      \<and> (\<forall>i<NUM_PEGS cfg. guess ! i = secret ! i \<longrightarrow>
            (\<exists>ai. for_loop [0..<i] (second_pass_body cfg guess secret) a1 = Inr ai
                \<and> second_pass_body cfg guess secret i ai = Inr ai))"
proof -
  from first_pass_returns obtain a1 where a1: "first_pass cfg guess secret = Inr a1" by blast
  from score_summary [OF assms] obtain a where
    a: "score cfg guess secret = Inr a"
    and idx: "feedback_idx a = black (feedback a) + white (feedback a)"
    and b: "black (feedback a) = matches guess secret (NUM_PEGS cfg)"
    and w: "white (feedback a) = whites (NUM_PEGS cfg) guess secret"
    by blast
  have total: "black (feedback a) + white (feedback a) =
          (\<Sum>c\<in>set guess \<union> set secret. min (count_list guess c) (count_list secret c))"
    using pegs_total [OF assms] by (simp add: b w size_inter_sum)
  have b': "black (feedback a) = length (filter (\<lambda>i. guess ! i = secret ! i) [0..<NUM_PEGS cfg])"
    by (simp add: b matches_def)
  have w': "white (feedback a) =
          (\<Sum>c\<in>set guess \<union> set secret.
              min (count_list (unmatched (NUM_PEGS cfg) guess secret guess) c)
                  (count_list (unmatched (NUM_PEGS cfg) guess secret secret) c))"
    using whites_unmatched [OF assms] by (simp add: w)
  have skip: "\<forall>i<NUM_PEGS cfg. guess ! i = secret ! i \<longrightarrow>
            (\<exists>ai. for_loop [0..<i] (second_pass_body cfg guess secret) a1 = Inr ai
                \<and> second_pass_body cfg guess secret i ai = Inr ai)"
    using second_pass_skips_black [OF _ _ a1] by blast
  from a1 a idx total b' w' skip show ?thesis by blast
qed

theorem feedback_pegs_total_witness:
  "\<exists>a1 a. first_pass hirn_v02 [2, 1, 3, 5] [1, 2, 3, 4] = Inr a1
      \<and> score hirn_v02 [2, 1, 3, 5] [1, 2, 3, 4] = Inr a
      \<and> feedback_idx a = black (feedback a) + white (feedback a)
      \<and> black (feedback a) + white (feedback a) = 3
      \<and> black (feedback a) = 1
      \<and> white (feedback a) = 2
      \<and> (\<exists>ai. for_loop [0..<2] (second_pass_body hirn_v02 [2, 1, 3, 5] [1, 2, 3, 4]) a1 = Inr ai
            \<and> second_pass_body hirn_v02 [2, 1, 3, 5] [1, 2, 3, 4] 2 ai = Inr ai)"
proof -
  have len: "length [2, 1, 3, 5::nat] = NUM_PEGS hirn_v02" "length [1, 2, 3, 4::nat] = NUM_PEGS hirn_v02"
    by (simp_all add: hirn_v02_def)
  have two: "2 < NUM_PEGS hirn_v02" "[2, 1, 3, 5::nat] ! 2 = [1, 2, 3, 4] ! 2"
    by (simp_all add: hirn_v02_def)
  from feedback_pegs_total [OF len] obtain a1 a where
    h: "first_pass hirn_v02 [2, 1, 3, 5] [1, 2, 3, 4] = Inr a1 \<and>
       score hirn_v02 [2, 1, 3, 5] [1, 2, 3, 4] = Inr a \<and>
       feedback_idx a = black (feedback a) + white (feedback a) \<and>
       black (feedback a) + white (feedback a) = 3 \<and>
       black (feedback a) = 1 \<and>
       white (feedback a) = 2 \<and>
       (\<forall>i<NUM_PEGS hirn_v02. [2, 1, 3, 5::nat] ! i = [1, 2, 3, 4] ! i \<longrightarrow>
            (\<exists>ai. for_loop [0..<i] (second_pass_body hirn_v02 [2, 1, 3, 5] [1, 2, 3, 4]) a1 = Inr ai
                \<and> second_pass_body hirn_v02 [2, 1, 3, 5] [1, 2, 3, 4] i ai = Inr ai))"
    unfolding example_counts by (elim exE) (rule that)
  from h have "\<exists>ai. for_loop [0..<2] (second_pass_body hirn_v02 [2, 1, 3, 5] [1, 2, 3, 4]) a1 = Inr ai
                \<and> second_pass_body hirn_v02 [2, 1, 3, 5] [1, 2, 3, 4] 2 ai = Inr ai"
    using two by (elim conjE allE [of _ 2]) (erule impE, assumption, erule impE, assumption, assumption)
  with h show ?thesis
    by (intro exI [of _ a1] exI [of _ a]) (elim conjE, intro conjI, assumption+)
qed

subsection \<open>C3: a submission that is not accepted changes nothing\<close>

text \<open>
  Claim C3.  The submission is guarded: when the state is not the playing state, or the
  guess has an empty slot among its pegs, or an attempt is on record and the guess equals
  the one recorded last, the submission returns the state it was given, with no attempt
  recorded and \<^verbatim>\<open>attempts_used\<close> as it was.  In every other case, so also for every complete
  first guess, it is the call of \<^verbatim>\<open>evaluate_guess\<close>, which does not return the same state.
  While the game is played the OK key is this submission, so that OK on a guess that is
  not accepted leaves the whole state as it is.
\<close>

theorem rejected_submission_changes_nothing:
  "((state st \<noteq> STATE_PLAYING
      \<or> (\<exists>i<NUM_PEGS cfg. current_guess st ! i = COLOR_NONE)
      \<or> (0 < attempts_used st
           \<and> (\<forall>i<NUM_PEGS cfg. current_guess st ! i = guess_history st ! (attempts_used st - 1) ! i)))
     \<longrightarrow> submit_guess cfg tick st = Inr st)
   \<and> (state st = STATE_PLAYING
       \<and> (\<forall>i<NUM_PEGS cfg. current_guess st ! i \<noteq> COLOR_NONE)
       \<and> (attempts_used st = 0
            \<or> (\<exists>i<NUM_PEGS cfg. current_guess st ! i \<noteq> guess_history st ! (attempts_used st - 1) ! i))
     \<longrightarrow> submit_guess cfg tick st = evaluate_guess cfg tick st
         \<and> submit_guess cfg tick st \<noteq> Inr st)
   \<and> (state st = STATE_PLAYING
     \<longrightarrow> on_ok cfg tick rnd st = submit_guess cfg tick st
         \<and> ((type event = InputTypePress \<or> type event = InputTypeRepeat) \<and> key event = InputKeyOk
             \<longrightarrow> handle_event cfg event tick rnd (running, st)
                 = (case submit_guess cfg tick st of Inl e \<Rightarrow> Inl e | Inr st' \<Rightarrow> Inr (running, st'))))"
proof (intro conjI impI)
  assume "state st \<noteq> STATE_PLAYING
      \<or> (\<exists>i<NUM_PEGS cfg. current_guess st ! i = COLOR_NONE)
      \<or> (0 < attempts_used st
           \<and> (\<forall>i<NUM_PEGS cfg. current_guess st ! i = guess_history st ! (attempts_used st - 1) ! i))"
  then have "\<not> (state st = STATE_PLAYING \<and> is_guess_complete cfg st \<and> is_guess_different cfg st)"
    unfolding guess_complete_iff guess_different_iff by auto
  then show "submit_guess cfg tick st = Inr st"
    by (auto simp: submit_guess_def)
next
  assume "state st = STATE_PLAYING
       \<and> (\<forall>i<NUM_PEGS cfg. current_guess st ! i \<noteq> COLOR_NONE)
       \<and> (attempts_used st = 0
            \<or> (\<exists>i<NUM_PEGS cfg. current_guess st ! i \<noteq> guess_history st ! (attempts_used st - 1) ! i))"
  then have g: "state st = STATE_PLAYING \<and> is_guess_complete cfg st \<and> is_guess_different cfg st"
    unfolding guess_complete_iff guess_different_iff by simp
  then show e: "submit_guess cfg tick st = evaluate_guess cfg tick st"
    by (simp add: submit_guess_def)
  show "submit_guess cfg tick st \<noteq> Inr st"
  proof
    assume "submit_guess cfg tick st = Inr st"
    with e have "evaluate_guess cfg tick st = Inr st" by simp
    from evaluate_guess_counts [OF this] show False by simp
  qed
next
  assume p: "state st = STATE_PLAYING"
  then show o: "on_ok cfg tick rnd st = submit_guess cfg tick st"
    by (simp add: on_ok_def submit_guess_def)
  assume "(type event = InputTypePress \<or> type event = InputTypeRepeat) \<and> key event = InputKeyOk"
  then have "type event = InputTypePress \<or> type event = InputTypeRepeat" "key event = InputKeyOk"
    by simp_all
  then show "handle_event cfg event tick rnd (running, st)
             = (case submit_guess cfg tick st of Inl e \<Rightarrow> Inl e | Inr st' \<Rightarrow> Inr (running, st'))"
    unfolding o [symmetric] by (rule handle_ok)
qed

theorem rejected_submission_changes_nothing_witness:
  "submit_guess hirn_v02 15000 game_start = Inr game_start
   \<and> handle_event hirn_v02 \<lparr>type = InputTypePress, key = InputKeyOk\<rparr> 15000 rand_count
        (True, game_start) = Inr (True, game_start)
   \<and> submit_guess hirn_v02 22000 game_scored = Inr game_scored
   \<and> handle_event hirn_v02 \<lparr>type = InputTypePress, key = InputKeyOk\<rparr> 22000 rand_count
        (True, game_scored) = Inr (True, game_scored)
   \<and> submit_guess hirn_v02 30000 game_paused = Inr game_paused
   \<and> submit_guess hirn_v02 20000 game_guess = Inr game_scored
   \<and> attempts_used game_scored = attempts_used game_guess + 1"
proof -
  have n: "\<exists>i<NUM_PEGS hirn_v02. current_guess game_start ! i = COLOR_NONE"
    by (simp add: start_more_fields v02_fields) (rule exI [of _ 0], simp)
  have r: "0 < attempts_used game_scored
     \<and> (\<forall>i<NUM_PEGS hirn_v02.
           current_guess game_scored ! i = guess_history game_scored ! (attempts_used game_scored - 1) ! i)"
    by (simp add: scored_fields)
  have a: "\<forall>i<NUM_PEGS hirn_v02. current_guess game_guess ! i \<noteq> COLOR_NONE"
    using guess_guard(1) by (simp only: guess_complete_iff)
  note t = rejected_submission_changes_nothing
    [where cfg = hirn_v02 and rnd = rand_count and running = True
       and event = "\<lparr>type = InputTypePress, key = InputKeyOk\<rparr>"]
  from t [where st = game_start and tick = 15000] n
  have 1: "submit_guess hirn_v02 15000 game_start = Inr game_start"
    "handle_event hirn_v02 \<lparr>type = InputTypePress, key = InputKeyOk\<rparr> 15000 rand_count
        (True, game_start) = Inr (True, game_start)"
    by (simp_all add: start_fields)
  from t [where st = game_scored and tick = 22000] r
  have 2: "submit_guess hirn_v02 22000 game_scored = Inr game_scored"
    "handle_event hirn_v02 \<lparr>type = InputTypePress, key = InputKeyOk\<rparr> 22000 rand_count
        (True, game_scored) = Inr (True, game_scored)"
    by (simp_all add: scored_fields)
  from t [where st = game_paused and tick = 30000]
  have 3: "submit_guess hirn_v02 30000 game_paused = Inr game_paused"
    by (simp add: paused_fields)
  from t [where st = game_guess and tick = 20000] a
  have 4: "submit_guess hirn_v02 20000 game_guess = Inr game_scored"
    by (simp add: guess_fields on_ok_example)
  have 5: "attempts_used game_scored = attempts_used game_guess + 1"
    by (simp add: scored_fields guess_fields)
  from 1 2 3 4 5 show ?thesis
    by (intro conjI)
qed

subsection \<open>C4: when the game is lost\<close>

text \<open>
  Claim C4, as amended.  In every state at the head of the main loop: a lost game either
  has used all \<^verbatim>\<open>MAX_ATTEMPTS\<close> attempts with a last guess that is not the secret, or
  has had its \<^verbatim>\<open>elapsed_time\<close> set to \<^verbatim>\<open>MAX_TIME_MS\<close> by the time check; a game that has
  used all attempts with a last guess that is not the secret is lost; a won game has the
  secret as its last guess.  The guess that uses the last attempt ends the game in the
  call that scores it: lost if it differs from the secret, won if it is the secret.  The
  time check of a pass through the loop, with or without an input event before it, makes
  a playing game lost as soon as the time played has reached the limit.  The limit is
  looked at nowhere else, so a game that is paused, revealed or won can carry an
  \<^verbatim>\<open>elapsed_time\<close> at or beyond the limit without being lost.
\<close>

theorem lost_phase:
  assumes "well_configured cfg" and "reachable cfg st"
  shows "(state st = STATE_LOST \<longrightarrow>
            attempts_used st = MAX_ATTEMPTS cfg
              \<and> guess_history st ! (MAX_ATTEMPTS cfg - 1) \<noteq> secret_code st
            \<or> elapsed_time st = MAX_TIME_MS cfg)
       \<and> (attempts_used st = MAX_ATTEMPTS cfg
            \<and> guess_history st ! (MAX_ATTEMPTS cfg - 1) \<noteq> secret_code st \<longrightarrow>
            state st = STATE_LOST)
       \<and> (state st = STATE_WON \<longrightarrow>
            0 < attempts_used st \<and> guess_history st ! (attempts_used st - 1) = secret_code st)
       \<and> (state st = STATE_PLAYING \<and> is_guess_complete cfg st \<and> is_guess_different cfg st
            \<and> attempts_used st + 1 = MAX_ATTEMPTS cfg \<longrightarrow>
            (\<exists>st'. on_ok cfg tick rnd st = Inr st'
               \<and> attempts_used st' = MAX_ATTEMPTS cfg
               \<and> (current_guess st \<noteq> secret_code st \<longrightarrow> state st' = STATE_LOST)
               \<and> (current_guess st = secret_code st \<longrightarrow> state st' = STATE_WON)))
       \<and> (state st = STATE_PLAYING
            \<and> MAX_TIME_MS cfg \<le> elapsed_time st + (tick - start_time st) \<longrightarrow>
            state (check_time_limit cfg tick st) = STATE_LOST
            \<and> elapsed_time (check_time_limit cfg tick st) = MAX_TIME_MS cfg
            \<and> loop_body cfg None tick' tick rnd (running, st)
                = Inr (running, check_time_limit cfg tick st))"
proof -
  from reachable_game_inv [OF assms] have inv: "game_inv cfg st" .
  then have len: "length (current_guess st) = NUM_PEGS cfg" "length (secret_code st) = NUM_PEGS cfg"
    and run: "state st = STATE_PLAYING \<or> state st = STATE_PAUSED \<or> state st = STATE_REVEAL
          \<longrightarrow> attempts_used st < MAX_ATTEMPTS cfg"
    and won: "state st = STATE_WON
          \<longrightarrow> 0 < attempts_used st \<and> guess_history st ! (attempts_used st - 1) = secret_code st"
    and lost: "state st = STATE_LOST
          \<longrightarrow> attempts_used st = MAX_ATTEMPTS cfg
                \<and> guess_history st ! (attempts_used st - 1) \<noteq> secret_code st
              \<or> elapsed_time st = MAX_TIME_MS cfg"
    by (simp_all add: game_inv_def sized_state_def)
  have a: "state st = STATE_LOST \<longrightarrow>
            attempts_used st = MAX_ATTEMPTS cfg
              \<and> guess_history st ! (MAX_ATTEMPTS cfg - 1) \<noteq> secret_code st
            \<or> elapsed_time st = MAX_TIME_MS cfg"
    using lost by auto
  have b: "attempts_used st = MAX_ATTEMPTS cfg
            \<and> guess_history st ! (MAX_ATTEMPTS cfg - 1) \<noteq> secret_code st \<longrightarrow>
            state st = STATE_LOST"
    using run won by (cases "state st") auto
  have c: "state st = STATE_PLAYING \<and> is_guess_complete cfg st \<and> is_guess_different cfg st
            \<and> attempts_used st + 1 = MAX_ATTEMPTS cfg \<longrightarrow>
            (\<exists>st'. on_ok cfg tick rnd st = Inr st'
               \<and> attempts_used st' = MAX_ATTEMPTS cfg
               \<and> (current_guess st \<noteq> secret_code st \<longrightarrow> state st' = STATE_LOST)
               \<and> (current_guess st = secret_code st \<longrightarrow> state st' = STATE_WON))"
  proof
    assume g: "state st = STATE_PLAYING \<and> is_guess_complete cfg st \<and> is_guess_different cfg st
            \<and> attempts_used st + 1 = MAX_ATTEMPTS cfg"
    then have lt: "attempts_used st < MAX_ATTEMPTS cfg" by simp
    from evaluate_guess_returns [OF lt, of tick] obtain st'
      where st': "evaluate_guess cfg tick st = Inr st'" by blast
    from evaluate_guess_fields [OF st'] have
      au: "attempts_used st' = attempts_used st + 1"
      and ph: "state st' =
          (if list_all (\<lambda>i. current_guess st ! i = secret_code st ! i) [0..<NUM_PEGS cfg]
           then STATE_WON
           else if MAX_ATTEMPTS cfg \<le> attempts_used st + 1 then STATE_LOST else state st)"
      by blast+
    have "on_ok cfg tick rnd st = Inr st'"
      using g st' by (simp add: on_ok_def)
    moreover have "attempts_used st' = MAX_ATTEMPTS cfg" using au g by simp
    moreover have "current_guess st \<noteq> secret_code st \<longrightarrow> state st' = STATE_LOST"
      using ph g all_equal_iff [OF len] by simp
    moreover have "current_guess st = secret_code st \<longrightarrow> state st' = STATE_WON"
      using ph all_equal_iff [OF len] by simp
    ultimately show "\<exists>st'. on_ok cfg tick rnd st = Inr st'
               \<and> attempts_used st' = MAX_ATTEMPTS cfg
               \<and> (current_guess st \<noteq> secret_code st \<longrightarrow> state st' = STATE_LOST)
               \<and> (current_guess st = secret_code st \<longrightarrow> state st' = STATE_WON)"
      by blast
  qed
  have d: "state st = STATE_PLAYING
            \<and> MAX_TIME_MS cfg \<le> elapsed_time st + (tick - start_time st) \<longrightarrow>
            state (check_time_limit cfg tick st) = STATE_LOST
            \<and> elapsed_time (check_time_limit cfg tick st) = MAX_TIME_MS cfg
            \<and> loop_body cfg None tick' tick rnd (running, st)
                = Inr (running, check_time_limit cfg tick st)"
    by (simp add: check_time_limit_def loop_body_def)
  from a b won c d show ?thesis by (intro conjI)
qed

theorem lost_phase_witness:
  "reachable tiny_game tiny_guess
   \<and> on_ok tiny_game 3000 rand_count tiny_guess = Inr tiny_lost
   \<and> attempts_used tiny_lost = MAX_ATTEMPTS tiny_game
   \<and> state tiny_lost = STATE_LOST
   \<and> reachable tiny_game tiny_lost
   \<and> guess_history tiny_lost ! (MAX_ATTEMPTS tiny_game - 1) \<noteq> secret_code tiny_lost
   \<and> reachable hirn_v02 game_start
   \<and> state (check_time_limit hirn_v02 1200000 game_start) = STATE_LOST
   \<and> elapsed_time (check_time_limit hirn_v02 1200000 game_start) = MAX_TIME_MS hirn_v02"
proof -
  have g: "state tiny_guess = STATE_PLAYING \<and> is_guess_complete tiny_game tiny_guess
      \<and> is_guess_different tiny_game tiny_guess
      \<and> attempts_used tiny_guess + 1 = MAX_ATTEMPTS tiny_game"
    by (simp add: tiny_guess_fields tiny_guard tiny_fields)
  have ne: "current_guess tiny_guess \<noteq> secret_code tiny_guess"
    by (simp add: tiny_guess_fields)
  from lost_phase [OF tiny_well_configured reachable_tiny(2), of 3000 rand_count] g ne
  obtain st' where s: "on_ok tiny_game 3000 rand_count tiny_guess = Inr st'"
    "attempts_used st' = MAX_ATTEMPTS tiny_game" "state st' = STATE_LOST"
    by blast
  from s(1) have e: "st' = tiny_lost" by (simp add: tiny_on_ok)
  have l: "state tiny_lost = STATE_LOST" by (simp add: tiny_lost_fields)
  have "elapsed_time tiny_lost \<noteq> MAX_TIME_MS tiny_game"
    by (simp add: tiny_lost_fields tiny_fields)
  with lost_phase [OF tiny_well_configured reachable_tiny(3), of 0 rand_count 0 True] l
  have h: "guess_history tiny_lost ! (MAX_ATTEMPTS tiny_game - 1) \<noteq> secret_code tiny_lost"
    by blast
  have w: "well_configured hirn_v02" by (simp add: well_configured_def hirn_v02_def)
  have "state game_start = STATE_PLAYING
      \<and> MAX_TIME_MS hirn_v02 \<le> elapsed_time game_start + (1200000 - start_time game_start)"
    by (simp add: start_fields hirn_v02_def)
  with lost_phase [OF w reachable_game_start, of 1200000 rand_count 0 True]
  have t: "state (check_time_limit hirn_v02 1200000 game_start) = STATE_LOST
      \<and> elapsed_time (check_time_limit hirn_v02 1200000 game_start) = MAX_TIME_MS hirn_v02"
    by blast
  from s e h t reachable_tiny(2,3) reachable_game_start show ?thesis
    by simp
qed

text \<open>
  The claim as it was stated fails in one direction: a game paused 20 ms after the time
  limit, before the next time check, is paused, not lost, with the limit exceeded.
\<close>

theorem paused_beyond_the_time_limit:
  "reachable hirn_v02 game_late_pause
   \<and> state game_late_pause = STATE_PAUSED
   \<and> elapsed_time game_late_pause = 1200020
   \<and> MAX_TIME_MS hirn_v02 \<le> elapsed_time game_late_pause"
proof -
  have "MAX_TIME_MS hirn_v02 = 1200000" by (simp add: hirn_v02_def)
  moreover have "state game_late_pause = STATE_PAUSED" "elapsed_time game_late_pause = 1200020"
    by (simp_all add: game_late_pause_def)
  ultimately show ?thesis using reachable_late_pause by simp
qed

subsection \<open>C5: a new round starts only from the won and the lost state\<close>

text \<open>
  Claim C5, as amended.  A new round is started by OK in the won and in the lost state
  only.  There, with a configuration that has enough colours and a random source that
  keeps yielding every colour, the press returns: the state is playing, no attempt is
  recorded, the guess is empty, the cursor is at 0, the clock is restarted and the secret
  is a newly generated one.  In the playing, the paused and the reveal state no input
  event starts a new round: the secret stays and \<^verbatim>\<open>attempts_used\<close> does not fall.
\<close>

theorem new_round_after_the_end:
  assumes "sized_state cfg st" and "0 < NUM_COLORS cfg"
    and "COLOR_REPEAT cfg \<or> NUM_PEGS cfg \<le> NUM_COLORS cfg"
    and "fair_source (NUM_COLORS cfg) rnd"
    and "type event = InputTypePress \<or> type event = InputTypeRepeat"
    and "key event = InputKeyOk"
  shows "(state st = STATE_WON \<or> state st = STATE_LOST \<longrightarrow>
          (\<exists>st'. handle_event cfg event tick rnd (running, st) = Inr (running, st')
            \<and> generate_secret_code cfg rnd
                 (st\<lparr>state := STATE_PLAYING, cursor_position := 0, attempts_used := 0,
                     start_time := tick, elapsed_time := 0,
                     current_guess := replicate (NUM_PEGS cfg) COLOR_NONE\<rparr>) = Some st'
            \<and> state st' = STATE_PLAYING \<and> attempts_used st' = 0 \<and> history st' = []
            \<and> current_guess st' = replicate (NUM_PEGS cfg) COLOR_NONE
            \<and> cursor_position st' = 0 \<and> elapsed_time st' = 0 \<and> start_time st' = tick
            \<and> length (secret_code st') = NUM_PEGS cfg
            \<and> COLOR_NONE \<notin> set (secret_code st')
            \<and> (\<not> COLOR_REPEAT cfg \<longrightarrow> distinct (secret_code st'))))
       \<and> (state st \<noteq> STATE_WON \<and> state st \<noteq> STATE_LOST \<longrightarrow>
          (\<forall>ev t running' st'. handle_event cfg ev t rnd (running, st) = Inr (running', st') \<longrightarrow>
             secret_code st' = secret_code st \<and> attempts_used st \<le> attempts_used st'))"
proof (intro conjI impI)
  assume e: "state st = STATE_WON \<or> state st = STATE_LOST"
  let ?s = "st\<lparr>state := STATE_PLAYING, cursor_position := 0, attempts_used := 0,
                     start_time := tick, elapsed_time := 0,
                     current_guess := replicate (NUM_PEGS cfg) COLOR_NONE\<rparr>"
  from generate_secret_code_returns [OF assms(3,4), of ?s] obtain st'
    where g: "generate_secret_code cfg rnd ?s = Some st'" by blast
  then have n: "new_round cfg tick rnd st = Inr st'" by (simp add: new_round_def)
  have "on_ok cfg tick rnd st = Inr st'"
    using e n by (auto simp: on_ok_def)
  then have h: "handle_event cfg event tick rnd (running, st) = Inr (running, st')"
    by (simp add: handle_ok [OF assms(5,6)])
  have len: "length (secret_code ?s) = NUM_PEGS cfg"
    using assms(1) by (simp add: sized_state_def)
  note r = generate_secret_code_Some [OF g assms(2) len]
  have none: "COLOR_NONE \<notin> set (secret_code st')"
    using r(2) by (auto simp: COLOR_NONE_def)
  have d: "\<not> COLOR_REPEAT cfg \<longrightarrow> distinct (secret_code st')"
    using r(3) by simp
  note f = new_round_fields [OF n]
  have hist: "history st' = []" by (simp add: history_def f(3))
  from h g f(1,3) hist f(6,2,5,4) r(1) none d
  show "\<exists>st'. handle_event cfg event tick rnd (running, st) = Inr (running, st')
            \<and> generate_secret_code cfg rnd ?s = Some st'
            \<and> state st' = STATE_PLAYING \<and> attempts_used st' = 0 \<and> history st' = []
            \<and> current_guess st' = replicate (NUM_PEGS cfg) COLOR_NONE
            \<and> cursor_position st' = 0 \<and> elapsed_time st' = 0 \<and> start_time st' = tick
            \<and> length (secret_code st') = NUM_PEGS cfg
            \<and> COLOR_NONE \<notin> set (secret_code st')
            \<and> (\<not> COLOR_REPEAT cfg \<longrightarrow> distinct (secret_code st'))"
    by (intro exI [of _ st'] conjI)
next
  assume "state st \<noteq> STATE_WON \<and> state st \<noteq> STATE_LOST"
  then show "\<forall>ev t running' st'. handle_event cfg ev t rnd (running, st) = Inr (running', st') \<longrightarrow>
             secret_code st' = secret_code st \<and> attempts_used st \<le> attempts_used st'"
    using event_keeps_round by blast
qed

theorem new_round_after_the_end_witness:
  "(\<exists>st'. handle_event hirn_v02 \<lparr>type = InputTypePress, key = InputKeyOk\<rparr> 45000 rand_count
              (True, game_won) = Inr (True, st')
        \<and> state st' = STATE_PLAYING \<and> attempts_used st' = 0 \<and> history st' = []
        \<and> current_guess st' = [COLOR_NONE, COLOR_NONE, COLOR_NONE, COLOR_NONE]
        \<and> cursor_position st' = 0 \<and> elapsed_time st' = 0 \<and> start_time st' = 45000
        \<and> length (secret_code st') = 4 \<and> COLOR_NONE \<notin> set (secret_code st')
        \<and> distinct (secret_code st'))
   \<and> (\<exists>st'. handle_event hirn_v02 \<lparr>type = InputTypePress, key = InputKeyOk\<rparr> 30000 rand_count
              (True, game_paused) = Inr (True, st')
        \<and> secret_code st' = secret_code game_paused \<and> 1 \<le> attempts_used st')"
proof
  have c: "0 < NUM_COLORS hirn_v02" "COLOR_REPEAT hirn_v02 \<or> NUM_PEGS hirn_v02 \<le> NUM_COLORS hirn_v02"
      "\<not> COLOR_REPEAT hirn_v02"
      "replicate (NUM_PEGS hirn_v02) COLOR_NONE = [COLOR_NONE, COLOR_NONE, COLOR_NONE, COLOR_NONE]"
      "NUM_PEGS hirn_v02 = 4"
    by (simp_all add: hirn_v02_def numeral_eq_Suc)
  have r4: "replicate 4 COLOR_NONE = [COLOR_NONE, COLOR_NONE, COLOR_NONE, COLOR_NONE]"
    by (simp add: numeral_eq_Suc)
  have e: "type \<lparr>type = InputTypePress, key = InputKeyOk\<rparr> = InputTypePress
           \<or> type \<lparr>type = InputTypePress, key = InputKeyOk\<rparr> = InputTypeRepeat"
      "key \<lparr>type = InputTypePress, key = InputKeyOk\<rparr> = InputKeyOk"
    by simp_all
  have w: "state game_won = STATE_WON \<or> state game_won = STATE_LOST"
    by (simp add: game_won_def)
  from new_round_after_the_end [OF sized_game_won c(1,2) fair_rand_count [OF c(1)] e,
      THEN conjunct1, rule_format, OF w, of 45000 True]
  show "\<exists>st'. handle_event hirn_v02 \<lparr>type = InputTypePress, key = InputKeyOk\<rparr> 45000 rand_count
              (True, game_won) = Inr (True, st')
        \<and> state st' = STATE_PLAYING \<and> attempts_used st' = 0 \<and> history st' = []
        \<and> current_guess st' = [COLOR_NONE, COLOR_NONE, COLOR_NONE, COLOR_NONE]
        \<and> cursor_position st' = 0 \<and> elapsed_time st' = 0 \<and> start_time st' = 45000
        \<and> length (secret_code st') = 4 \<and> COLOR_NONE \<notin> set (secret_code st')
        \<and> distinct (secret_code st')"
    unfolding c(5) r4 using c(3) by (elim exE conjE) (intro exI conjI, simp_all)
next
  show "\<exists>st'. handle_event hirn_v02 \<lparr>type = InputTypePress, key = InputKeyOk\<rparr> 30000 rand_count
              (True, game_paused) = Inr (True, st')
        \<and> secret_code st' = secret_code game_paused \<and> 1 \<le> attempts_used st'"
    by (simp add: handle_event_def on_ok_def paused_fields)
qed

text \<open>
  The claim as it was stated fails in the playing and in the paused state: OK, the one key
  that starts a new round, leaves the recorded attempt, the guess and the secret of the
  running game in place there.
\<close>

theorem no_new_round_while_game_runs:
  "reachable hirn_v02 game_scored
   \<and> reachable hirn_v02 game_paused
   \<and> state game_scored = STATE_PLAYING
   \<and> handle_event hirn_v02 \<lparr>type = InputTypePress, key = InputKeyOk\<rparr> 22000 rand_count
        (True, game_scored) = Inr (True, game_scored)
   \<and> attempts_used game_scored = 1
   \<and> current_guess game_scored = [2, 1, 3, 5]
   \<and> state game_paused = STATE_PAUSED
   \<and> handle_event hirn_v02 \<lparr>type = InputTypePress, key = InputKeyOk\<rparr> 30000 rand_count
        (True, game_paused) = Inr (True, game_paused\<lparr>state := STATE_PLAYING, start_time := 30000\<rparr>)
   \<and> attempts_used (game_paused\<lparr>state := STATE_PLAYING, start_time := 30000\<rparr>) = 1
   \<and> elapsed_time (game_paused\<lparr>state := STATE_PLAYING, start_time := 30000\<rparr>) = 25000"
  by (simp add: reachable_examples handle_event_def on_ok_def paused_fields scored_fields
      scored_same_guess)

subsection \<open>C6: what a submitted guess does, and when it stops the clock\<close>

text \<open>
  Claim C6, as amended.  A submitted guess (OK while playing, the guess complete and
  different from the last one) runs the scorer, stores guess and feedback as the next
  attempt and adds one to \<^verbatim>\<open>attempts_used\<close>; the resulting state is won, lost or
  playing.  It stops the clock exactly when the game ends there: in the won or lost state
  \<^verbatim>\<open>elapsed_time\<close> has grown by the time since \<^verbatim>\<open>start_time\<close> and the displayed time is
  from then on the time displayed at the moment of submission.  When the game goes on,
  \<^verbatim>\<open>elapsed_time\<close> and \<^verbatim>\<open>start_time\<close> are unchanged and the displayed time at every
  clock value is that of the state before.
\<close>

theorem submit_scores_and_stops_clock_at_end:
  assumes "sized_state cfg st" and "state st = STATE_PLAYING"
    and "is_guess_complete cfg st" and "is_guess_different cfg st"
    and "attempts_used st < MAX_ATTEMPTS cfg"
  shows "\<exists>a st'. score cfg (current_guess st) (secret_code st) = Inr a
      \<and> on_ok cfg tick rnd st = Inr st'
      \<and> guess_history st' = (guess_history st)[attempts_used st := current_guess st]
      \<and> feedback_history st' = (feedback_history st)[attempts_used st := feedback a]
      \<and> attempts_used st' = attempts_used st + 1
      \<and> start_time st' = start_time st
      \<and> (state st' = STATE_WON \<or> state st' = STATE_LOST \<or> state st' = STATE_PLAYING)
      \<and> (state st' = STATE_PLAYING \<longrightarrow>
            elapsed_time st' = elapsed_time st
            \<and> (\<forall>t. total_time cfg t st' = total_time cfg t st))
      \<and> (state st' \<noteq> STATE_PLAYING \<longrightarrow>
            elapsed_time st' = elapsed_time st + (tick - start_time st)
            \<and> (\<forall>t. total_time cfg t st' = total_time cfg tick st))"
proof -
  from evaluate_guess_returns [OF assms(5), of tick] obtain st'
    where st': "evaluate_guess cfg tick st = Inr st'" by blast
  from evaluate_guess_fields [OF st'] obtain a where
    a: "score cfg (current_guess st) (secret_code st) = Inr a"
    and fh: "feedback_history st' = (feedback_history st)[attempts_used st := feedback a]"
    and gh: "guess_history st' = (guess_history st)[attempts_used st := current_guess st]"
    and au: "attempts_used st' = attempts_used st + 1"
    and stt: "start_time st' = start_time st"
    and ph: "state st' =
          (if list_all (\<lambda>i. current_guess st ! i = secret_code st ! i) [0..<NUM_PEGS cfg]
           then STATE_WON
           else if MAX_ATTEMPTS cfg \<le> attempts_used st + 1 then STATE_LOST else state st)"
    and el: "elapsed_time st' =
          (if list_all (\<lambda>i. current_guess st ! i = secret_code st ! i) [0..<NUM_PEGS cfg]
              \<or> MAX_ATTEMPTS cfg \<le> attempts_used st + 1
           then elapsed_time st + (tick - start_time st) else elapsed_time st)"
    by blast
  have phases: "state st' = STATE_WON \<or> state st' = STATE_LOST \<or> state st' = STATE_PLAYING"
    using ph assms(2) by (simp split: if_splits)
  have go_on: "state st' = STATE_PLAYING \<longrightarrow>
            elapsed_time st' = elapsed_time st \<and> (\<forall>t. total_time cfg t st' = total_time cfg t st)"
  proof
    assume p: "state st' = STATE_PLAYING"
    then have "elapsed_time st' = elapsed_time st"
      using ph el by (simp split: if_splits)
    then show "elapsed_time st' = elapsed_time st \<and> (\<forall>t. total_time cfg t st' = total_time cfg t st)"
      using p assms(2) stt by (simp add: total_time_playing)
  qed
  have ended: "state st' \<noteq> STATE_PLAYING \<longrightarrow>
            elapsed_time st' = elapsed_time st + (tick - start_time st)
            \<and> (\<forall>t. total_time cfg t st' = total_time cfg tick st)"
  proof
    assume p: "state st' \<noteq> STATE_PLAYING"
    then have "elapsed_time st' = elapsed_time st + (tick - start_time st)"
      using ph el assms(2) by (simp split: if_splits)
    then show "elapsed_time st' = elapsed_time st + (tick - start_time st)
            \<and> (\<forall>t. total_time cfg t st' = total_time cfg tick st)"
      using p assms(2) by (simp add: total_time_playing total_time_stopped)
  qed
  have "on_ok cfg tick rnd st = Inr st'"
    using st' by (simp add: submit_is_evaluate [OF assms(2-4)])
  with a gh fh au stt phases go_on ended show ?thesis
    by (intro exI [of _ a] exI [of _ st'] conjI)
qed

theorem submit_scores_and_stops_clock_at_end_witness:
  "(\<exists>a st'. score hirn_v02 [2, 1, 3, 5] [1, 2, 3, 4] = Inr a
      \<and> on_ok hirn_v02 20000 rand_count game_guess = Inr st'
      \<and> attempts_used st' = 1 \<and> start_time st' = 0
      \<and> state st' = STATE_PLAYING \<and> elapsed_time st' = 0)
   \<and> (\<exists>a st'. score hirn_v02 [1, 2, 3, 4] [1, 2, 3, 4] = Inr a
      \<and> on_ok hirn_v02 40000 rand_count game_win = Inr st'
      \<and> attempts_used st' = 2 \<and> start_time st' = 0
      \<and> state st' = STATE_WON \<and> elapsed_time st' = 40000)"
proof
  have m: "attempts_used game_guess < MAX_ATTEMPTS hirn_v02"
    by (simp add: guess_fields hirn_v02_def)
  from submit_scores_and_stops_clock_at_end
    [OF sized_game_guess guess_fields(1) guess_guard m, of 20000 rand_count]
  obtain a st' where h: "score hirn_v02 (current_guess game_guess) (secret_code game_guess) = Inr a"
    "on_ok hirn_v02 20000 rand_count game_guess = Inr st'"
    "attempts_used st' = attempts_used game_guess + 1"
    "start_time st' = start_time game_guess"
    "state st' = STATE_PLAYING \<longrightarrow> elapsed_time st' = elapsed_time game_guess
         \<and> (\<forall>t. total_time hirn_v02 t st' = total_time hirn_v02 t game_guess)"
    by (elim exE conjE) (rule that)
  from h(2) have "st' = game_scored" by (simp add: on_ok_example)
  then have "state st' = STATE_PLAYING" by (simp add: scored_fields)
  with h show "\<exists>a st'. score hirn_v02 [2, 1, 3, 5] [1, 2, 3, 4] = Inr a
      \<and> on_ok hirn_v02 20000 rand_count game_guess = Inr st'
      \<and> attempts_used st' = 1 \<and> start_time st' = 0
      \<and> state st' = STATE_PLAYING \<and> elapsed_time st' = 0"
    by (simp add: guess_fields)
next
  have m: "attempts_used game_win < MAX_ATTEMPTS hirn_v02"
    by (simp add: win_fields hirn_v02_def)
  from submit_scores_and_stops_clock_at_end
    [OF sized_game_win win_fields(1) win_guard m, of 40000 rand_count]
  obtain a st' where h: "score hirn_v02 (current_guess game_win) (secret_code game_win) = Inr a"
    "on_ok hirn_v02 40000 rand_count game_win = Inr st'"
    "attempts_used st' = attempts_used game_win + 1"
    "start_time st' = start_time game_win"
    "state st' \<noteq> STATE_PLAYING \<longrightarrow> elapsed_time st' = elapsed_time game_win + (40000 - start_time game_win)
         \<and> (\<forall>t. total_time hirn_v02 t st' = total_time hirn_v02 40000 game_win)"
    by (elim exE conjE) (rule that)
  from h(2) have "st' = game_won" by (simp add: on_ok_example_win)
  then have "state st' = STATE_WON" by (simp add: game_won_def)
  with h show "\<exists>a st'. score hirn_v02 [1, 2, 3, 4] [1, 2, 3, 4] = Inr a
      \<and> on_ok hirn_v02 40000 rand_count game_win = Inr st'
      \<and> attempts_used st' = 2 \<and> start_time st' = 0
      \<and> state st' = STATE_WON \<and> elapsed_time st' = 40000"
    by (simp add: win_fields)
qed

text \<open>
  The claim as it was stated fails where the game goes on: the first guess of a game,
  submitted 20 s after the start, leaves the state playing with \<^verbatim>\<open>elapsed_time\<close> still 0,
  and a second later the display shows a second more.
\<close>

theorem submit_leaves_clock_running:
  "reachable hirn_v02 game_guess
   \<and> on_ok hirn_v02 20000 rand_count game_guess = Inr game_scored
   \<and> state game_scored = STATE_PLAYING
   \<and> elapsed_time game_scored = 0
   \<and> total_time hirn_v02 20000 game_scored = 20000
   \<and> total_time hirn_v02 21000 game_scored = 21000"
proof -
  have "MAX_TIME_MS hirn_v02 = 1200000" by (simp add: hirn_v02_def)
  then show ?thesis
    by (simp add: reachable_examples on_ok_example scored_fields total_time_def)
qed

subsection \<open>C7: the generated secret, and too few colours\<close>

text \<open>
  Claim C7, as amended.  A secret that the generator returns has \<^verbatim>\<open>NUM_PEGS\<close> entries, all
  of them colours from 1 to \<^verbatim>\<open>NUM_COLORS\<close> and none \<^verbatim>\<open>COLOR_NONE\<close>; without repeats the
  entries are pairwise distinct and \<^verbatim>\<open>NUM_PEGS\<close> is at most \<^verbatim>\<open>NUM_COLORS\<close>.  With repeats,
  or with enough colours and a random source that keeps yielding every colour, the
  generator returns.  With fewer colours than pegs and no repeats nothing rejects the
  configuration: the generator never returns, whatever the random source, and so the
  set-up of the game never ends.
\<close>

theorem generated_secret:
  assumes "0 < NUM_COLORS cfg" and "length (secret_code st) = NUM_PEGS cfg"
  shows "(\<forall>st'. generate_secret_code cfg rnd st = Some st' \<longrightarrow>
            COLOR_NONE \<notin> set (secret_code st')
            \<and> length (secret_code st') = NUM_PEGS cfg
            \<and> (\<forall>c\<in>set (secret_code st'). 1 \<le> c \<and> c \<le> NUM_COLORS cfg)
            \<and> (\<not> COLOR_REPEAT cfg \<longrightarrow>
                  distinct (secret_code st') \<and> NUM_PEGS cfg \<le> NUM_COLORS cfg))
       \<and> ((COLOR_REPEAT cfg \<or> NUM_PEGS cfg \<le> NUM_COLORS cfg)
             \<and> fair_source (NUM_COLORS cfg) rnd \<longrightarrow>
            (\<exists>st'. generate_secret_code cfg rnd st = Some st'))
       \<and> (\<not> COLOR_REPEAT cfg \<and> NUM_COLORS cfg < NUM_PEGS cfg \<longrightarrow>
            generate_secret_code cfg rnd st = None
            \<and> hirn_init cfg tick rnd = Inl NeverReturns)"
proof -
  have a: "\<forall>st'. generate_secret_code cfg rnd st = Some st' \<longrightarrow>
            COLOR_NONE \<notin> set (secret_code st')
            \<and> length (secret_code st') = NUM_PEGS cfg
            \<and> (\<forall>c\<in>set (secret_code st'). 1 \<le> c \<and> c \<le> NUM_COLORS cfg)
            \<and> (\<not> COLOR_REPEAT cfg \<longrightarrow>
                  distinct (secret_code st') \<and> NUM_PEGS cfg \<le> NUM_COLORS cfg)"
  proof (intro allI impI)
    fix st' assume g: "generate_secret_code cfg rnd st = Some st'"
    note r = generate_secret_code_Some [OF g assms]
    have "COLOR_NONE \<notin> set (secret_code st')"
      using r(2) by (auto simp: COLOR_NONE_def)
    with r show "COLOR_NONE \<notin> set (secret_code st')
            \<and> length (secret_code st') = NUM_PEGS cfg
            \<and> (\<forall>c\<in>set (secret_code st'). 1 \<le> c \<and> c \<le> NUM_COLORS cfg)
            \<and> (\<not> COLOR_REPEAT cfg \<longrightarrow>
                  distinct (secret_code st') \<and> NUM_PEGS cfg \<le> NUM_COLORS cfg)"
      by blast
  qed
  have b: "(COLOR_REPEAT cfg \<or> NUM_PEGS cfg \<le> NUM_COLORS cfg)
             \<and> fair_source (NUM_COLORS cfg) rnd \<longrightarrow>
            (\<exists>st'. generate_secret_code cfg rnd st = Some st')"
    using generate_secret_code_returns by blast
  have c: "\<not> COLOR_REPEAT cfg \<and> NUM_COLORS cfg < NUM_PEGS cfg \<longrightarrow>
            generate_secret_code cfg rnd st = None
            \<and> hirn_init cfg tick rnd = Inl NeverReturns"
    using generate_secret_code_hangs [OF _ _ assms] hirn_init_hangs [OF _ _ assms(1)] by blast
  from a b c show ?thesis by (intro conjI)
qed

theorem generated_secret_witness:
  "generate_secret_code hirn_v02 rand_count (zeroed hirn_v02) = Some game_start
   \<and> COLOR_NONE \<notin> set (secret_code game_start)
   \<and> length (secret_code game_start) = 4
   \<and> distinct (secret_code game_start)
   \<and> generate_secret_code few_colours rand_count (zeroed few_colours) = None"
proof -
  have v: "0 < NUM_COLORS hirn_v02" "\<not> COLOR_REPEAT hirn_v02" "NUM_PEGS hirn_v02 = 4"
    by (simp_all add: hirn_v02_def)
  from generated_secret [OF v(1) length_secret_zeroed, of rand_count 0]
  have "COLOR_NONE \<notin> set (secret_code game_start)
      \<and> length (secret_code game_start) = 4 \<and> distinct (secret_code game_start)"
    using generate_example v(2,3) by simp
  moreover have f: "0 < NUM_COLORS few_colours"
    by (simp add: few_colours_fields)
  from generated_secret [OF f length_secret_zeroed, of rand_count 0]
  have "generate_secret_code few_colours rand_count (zeroed few_colours) = None"
    by (simp add: few_colours_fields)
  ultimately show ?thesis using generate_example by simp
qed

text \<open>
  The claim as it was stated fails in its last part: with three colours for four pegs
  and no repeats the set-up does not stop with an error, it never ends.
\<close>

theorem too_few_colours_never_return:
  "\<not> COLOR_REPEAT few_colours \<and> NUM_COLORS few_colours < NUM_PEGS few_colours
   \<and> hirn_init few_colours 0 rand_count = Inl NeverReturns"
  using hirn_init_hangs [of few_colours 0 rand_count]
  by (simp add: few_colours_fields)

subsection \<open>C8: the clock runs only while playing\<close>

text \<open>
  Claim C8, as amended.  A run of the loop from a playing state: the game is stopped at
  \<open>t1\<close> (paused with Back, or the secret revealed with a long OK), goes on at \<open>t2\<close> (OK),
  and Back is pressed at \<open>t3\<close>, with any number of passes without an event in between and
  the time check at the end of every pass.  The stop adds the time played to
  \<^verbatim>\<open>elapsed_time\<close>, and from then until \<open>t2\<close> the displayed time is what it was at \<open>t1\<close>.
  If every time check from \<open>t2\<close> on finds the time below the limit, the game is paused at
  \<open>t3\<close> with \<open>(t1 - start) + (t3 - t2)\<close> more on the counter, as 32-bit values and, for
  a counter at 0 and clock values in this order, as numbers.  Otherwise the game is lost,
  with \<^verbatim>\<open>elapsed_time\<close> at the limit.  In a state that is not the playing state the
  displayed time does not depend on the clock, and a pass through the loop without an
  event, or with an event of another key than OK, leaves the state as it is.
\<close>

theorem stopped_interval_is_excluded:
  fixes cfg :: config and st :: CodeBreakerState and t1 t2 t3 c1 c2 c3 :: "32 word"
  assumes "state st = STATE_PLAYING"
    and "stop = \<lparr>type = InputTypePress, key = InputKeyBack\<rparr>
           \<and> (type go = InputTypePress \<or> type go = InputTypeRepeat)
         \<or> stop = \<lparr>type = InputTypeLong, key = InputKeyOk\<rparr>
           \<and> (type go = InputTypePress \<or> type go = InputTypeRepeat \<or> type go = InputTypeLong)"
    and "key go = InputKeyOk"
    and "idle idle1" and "idle idle2"
  shows "\<exists>st1 st2 st3.
       loop_body cfg (Some stop) t1 c1 r1 (True, st) = Inr (True, st1)
     \<and> state st1 \<noteq> STATE_PLAYING
     \<and> elapsed_time st1 = elapsed_time st + (t1 - start_time st)
     \<and> (\<forall>t. total_time cfg t st1 = total_time cfg t1 st)
     \<and> handle_event cfg go t2 r2 (True, st1) = Inr (True, st2)
     \<and> state st2 = STATE_PLAYING
     \<and> total_time cfg t2 st2 = total_time cfg t1 st
     \<and> main_loop cfg
           ((Some stop, t1, c1, r1) # idle1 @ (Some go, t2, c2, r2) # idle2
              @ [(Some \<lparr>type = InputTypePress, key = InputKeyBack\<rparr>, t3, c3, r3)]) (True, st)
         = Inr (True, st3)
     \<and> (if within_limit cfg (elapsed_time st + (t1 - start_time st)) t2 (c2 # check_ticks idle2)
         then state st3 = STATE_PAUSED
            \<and> elapsed_time st3 = elapsed_time st + (t1 - start_time st) + (t3 - t2)
            \<and> (elapsed_time st = 0 \<and> start_time st \<le> t1 \<and> t1 \<le> t2 \<and> t2 \<le> t3 \<longrightarrow>
                 unat (elapsed_time st3) = (unat t1 - unat (start_time st)) + (unat t3 - unat t2))
         else state st3 = STATE_LOST \<and> elapsed_time st3 = MAX_TIME_MS cfg)
     \<and> (\<forall>s. state s \<noteq> STATE_PLAYING \<longrightarrow>
           (\<forall>t t'. total_time cfg t s = total_time cfg t' s)
         \<and> (\<forall>t c r running. loop_body cfg None t c r (running, s) = Inr (running, s))
         \<and> (\<forall>event t c r running. key event \<noteq> InputKeyOk \<longrightarrow>
               (\<exists>running'. loop_body cfg (Some event) t c r (running, s) = Inr (running', s)))
         \<and> (\<forall>event t r running running' s'.
               handle_event cfg event t r (running, s) = Inr (running', s') \<longrightarrow>
                 elapsed_time s' = elapsed_time s
                 \<or> (state s = STATE_WON \<or> state s = STATE_LOST) \<and> elapsed_time s' = 0))"
proof -
  define sp where "sp = (if stop = \<lparr>type = InputTypePress, key = InputKeyBack\<rparr>
                         then STATE_PAUSED else STATE_REVEAL)"
  define e1 where "e1 = elapsed_time st + (t1 - start_time st)"
  define st1 where "st1 = st\<lparr>state := sp, elapsed_time := e1\<rparr>"
  define st2 where "st2 = st1\<lparr>state := STATE_PLAYING, start_time := t2\<rparr>"
  define st3 where "st3 =
    (if within_limit cfg e1 t2 (c2 # check_ticks idle2)
     then st\<lparr>state := STATE_PAUSED, start_time := t2, elapsed_time := e1 + (t3 - t2)\<rparr>
     else st\<lparr>state := STATE_LOST, start_time := t2, elapsed_time := MAX_TIME_MS cfg\<rparr>)"
  have sp: "stop = \<lparr>type = InputTypePress, key = InputKeyBack\<rparr> \<and> sp = STATE_PAUSED
         \<or> stop = \<lparr>type = InputTypeLong, key = InputKeyOk\<rparr> \<and> sp = STATE_REVEAL"
    using assms(2) by (auto simp: sp_def)
  then have n: "sp \<noteq> STATE_PLAYING" by auto
  have 1: "loop_body cfg (Some stop) t1 c1 r1 (True, st) = Inr (True, st1)"
    unfolding st1_def e1_def using assms(1) sp by (rule stop_pass)
  have 2: "state st1 \<noteq> STATE_PLAYING"
    using n by (simp add: st1_def)
  have 3: "elapsed_time st1 = elapsed_time st + (t1 - start_time st)"
    by (simp add: st1_def e1_def)
  have 4: "\<forall>t. total_time cfg t st1 = total_time cfg t1 st"
    using n assms(1) by (simp add: total_time_def st1_def e1_def)
  have g: "state st1 = STATE_PAUSED \<and> (type go = InputTypePress \<or> type go = InputTypeRepeat)
         \<or> state st1 = STATE_REVEAL
            \<and> (type go = InputTypePress \<or> type go = InputTypeRepeat \<or> type go = InputTypeLong)"
    using assms(2) sp by (auto simp: st1_def)
  have 5: "handle_event cfg go t2 r2 (True, st1) = Inr (True, st2)"
    unfolding st2_def using g assms(3) by (rule go_event)
  have 6: "state st2 = STATE_PLAYING"
    by (simp add: st2_def)
  have 7: "total_time cfg t2 st2 = total_time cfg t1 st"
    using assms(1) by (simp add: total_time_def st2_def st1_def e1_def)
  have 8: "main_loop cfg
           ((Some stop, t1, c1, r1) # idle1 @ (Some go, t2, c2, r2) # idle2
              @ [(Some \<lparr>type = InputTypePress, key = InputKeyBack\<rparr>, t3, c3, r3)]) (True, st)
         = Inr (True, st3)"
    unfolding st3_def e1_def by (rule stop_go_stop [OF assms])
  have 9: "if within_limit cfg (elapsed_time st + (t1 - start_time st)) t2 (c2 # check_ticks idle2)
         then state st3 = STATE_PAUSED
            \<and> elapsed_time st3 = elapsed_time st + (t1 - start_time st) + (t3 - t2)
            \<and> (elapsed_time st = 0 \<and> start_time st \<le> t1 \<and> t1 \<le> t2 \<and> t2 \<le> t3 \<longrightarrow>
                 unat (elapsed_time st3) = (unat t1 - unat (start_time st)) + (unat t3 - unat t2))
         else state st3 = STATE_LOST \<and> elapsed_time st3 = MAX_TIME_MS cfg"
  proof (cases "within_limit cfg e1 t2 (c2 # check_ticks idle2)")
    case True
    then have s: "st3 = st\<lparr>state := STATE_PAUSED, start_time := t2, elapsed_time := e1 + (t3 - t2)\<rparr>"
      by (simp add: st3_def)
    have "elapsed_time st = 0 \<and> start_time st \<le> t1 \<and> t1 \<le> t2 \<and> t2 \<le> t3 \<longrightarrow>
            unat (elapsed_time st3) = (unat t1 - unat (start_time st)) + (unat t3 - unat t2)"
      by (simp add: s e1_def unat_two_intervals)
    with True show ?thesis
      by (simp add: s e1_def)
  next
    case False
    then have "st3 = st\<lparr>state := STATE_LOST, start_time := t2, elapsed_time := MAX_TIME_MS cfg\<rparr>"
      by (simp add: st3_def)
    with False show ?thesis
      by (simp add: e1_def)
  qed
  have 10: "\<forall>s. state s \<noteq> STATE_PLAYING \<longrightarrow>
           (\<forall>t t'. total_time cfg t s = total_time cfg t' s)
         \<and> (\<forall>t c r running. loop_body cfg None t c r (running, s) = Inr (running, s))
         \<and> (\<forall>event t c r running. key event \<noteq> InputKeyOk \<longrightarrow>
               (\<exists>running'. loop_body cfg (Some event) t c r (running, s) = Inr (running', s)))
         \<and> (\<forall>event t r running running' s'.
               handle_event cfg event t r (running, s) = Inr (running', s') \<longrightarrow>
                 elapsed_time s' = elapsed_time s
                 \<or> (state s = STATE_WON \<or> state s = STATE_LOST) \<and> elapsed_time s' = 0)"
  proof (intro allI impI)
    fix s :: CodeBreakerState
    assume s: "state s \<noteq> STATE_PLAYING"
    have a: "\<forall>t t'. total_time cfg t s = total_time cfg t' s"
      using s by (simp add: total_time_def)
    have b: "\<forall>t c r running. loop_body cfg None t c r (running, s) = Inr (running, s)"
      using s by (simp add: idle_pass_stopped)
    have c: "\<forall>event t c r running. key event \<noteq> InputKeyOk \<longrightarrow>
               (\<exists>running'. loop_body cfg (Some event) t c r (running, s) = Inr (running', s))"
      using s by (simp add: stopped_pass_unchanged)
    have d: "\<forall>event t r running running' s'.
               handle_event cfg event t r (running, s) = Inr (running', s') \<longrightarrow>
                 elapsed_time s' = elapsed_time s
                 \<or> (state s = STATE_WON \<or> state s = STATE_LOST) \<and> elapsed_time s' = 0"
      using s by (blast dest: stopped_clock_event)
    from a b c d show "(\<forall>t t'. total_time cfg t s = total_time cfg t' s)
         \<and> (\<forall>t c r running. loop_body cfg None t c r (running, s) = Inr (running, s))
         \<and> (\<forall>event t c r running. key event \<noteq> InputKeyOk \<longrightarrow>
               (\<exists>running'. loop_body cfg (Some event) t c r (running, s) = Inr (running', s)))
         \<and> (\<forall>event t r running running' s'.
               handle_event cfg event t r (running, s) = Inr (running', s') \<longrightarrow>
                 elapsed_time s' = elapsed_time s
                 \<or> (state s = STATE_WON \<or> state s = STATE_LOST) \<and> elapsed_time s' = 0)"
      by (intro conjI)
  qed
  from 1 2 3 4 5 6 7 8 9 10 show ?thesis
    by (intro exI [of _ st1] exI [of _ st2] exI [of _ st3] conjI)
qed

theorem stopped_interval_is_excluded_witness:
  "(\<exists>st3. main_loop hirn_v02
        [(Some \<lparr>type = InputTypePress, key = InputKeyBack\<rparr>, 1000, 1050, rand_count),
         (None, 2000, 2050, rand_count),
         (Some \<lparr>type = InputTypePress, key = InputKeyOk\<rparr>, 4000, 4050, rand_count),
         (None, 5000, 5050, rand_count),
         (Some \<lparr>type = InputTypePress, key = InputKeyBack\<rparr>, 6000, 6050, rand_count)]
        (True, game_scored) = Inr (True, st3)
      \<and> state st3 = STATE_PAUSED \<and> elapsed_time st3 = 3000 \<and> unat (elapsed_time st3) = 3000)
   \<and> (\<exists>st3. main_loop hirn_v02
        [(Some \<lparr>type = InputTypeLong, key = InputKeyOk\<rparr>, 1000, 1050, rand_count),
         (None, 2000, 2050, rand_count),
         (Some \<lparr>type = InputTypeLong, key = InputKeyOk\<rparr>, 4000, 4050, rand_count),
         (None, 5000, 5050, rand_count),
         (Some \<lparr>type = InputTypePress, key = InputKeyBack\<rparr>, 6000, 6050, rand_count)]
        (True, game_scored) = Inr (True, st3)
      \<and> state st3 = STATE_PAUSED \<and> elapsed_time st3 = 3000 \<and> unat (elapsed_time st3) = 3000)
   \<and> total_time hirn_v02 0 game_paused = total_time hirn_v02 77777 game_paused"
proof -
  have i: "idle [(None, 2000, 2050, rand_count)]" "idle [(None, 5000, 5050, rand_count)]"
    by (simp_all add: idle_def)
  have w: "within_limit hirn_v02 (elapsed_time game_scored + (1000 - start_time game_scored)) 4000
             (4050 # check_ticks [(None, 5000, 5050, rand_count)])"
    by (simp add: within_limit_def check_ticks_def scored_fields v02_fields)
  have o: "elapsed_time game_scored = 0 \<and> start_time game_scored \<le> 1000
           \<and> (1000::32 word) \<le> 4000 \<and> (4000::32 word) \<le> 6000"
    by (simp add: scored_fields)
  have p: "state game_paused \<noteq> STATE_PLAYING"
    by (simp add: paused_fields)
  from stopped_interval_is_excluded
    [where st = game_scored and cfg = hirn_v02
       and stop = "\<lparr>type = InputTypePress, key = InputKeyBack\<rparr>"
       and go = "\<lparr>type = InputTypePress, key = InputKeyOk\<rparr>"
       and ?idle1.0 = "[(None, 2000, 2050, rand_count)]"
       and ?idle2.0 = "[(None, 5000, 5050, rand_count)]"
       and ?t1.0 = 1000 and ?c1.0 = 1050 and ?r1.0 = rand_count
       and ?t2.0 = 4000 and ?c2.0 = 4050 and ?r2.0 = rand_count
       and ?t3.0 = 6000 and ?c3.0 = 6050 and ?r3.0 = rand_count,
     OF scored_fields(1) _ _ i]
  obtain a where a:
    "main_loop hirn_v02
        ((Some \<lparr>type = InputTypePress, key = InputKeyBack\<rparr>, 1000, 1050, rand_count)
         # [(None, 2000, 2050, rand_count)]
         @ (Some \<lparr>type = InputTypePress, key = InputKeyOk\<rparr>, 4000, 4050, rand_count)
         # [(None, 5000, 5050, rand_count)]
         @ [(Some \<lparr>type = InputTypePress, key = InputKeyBack\<rparr>, 6000, 6050, rand_count)])
        (True, game_scored) = Inr (True, a)"
    "state a = STATE_PAUSED"
    "elapsed_time a = elapsed_time game_scored + (1000 - start_time game_scored) + (6000 - 4000)"
    "unat (elapsed_time a) = (unat (1000::32 word) - unat (start_time game_scored))
        + (unat (6000::32 word) - unat (4000::32 word))"
    and f: "\<forall>t t'. total_time hirn_v02 t game_paused = total_time hirn_v02 t' game_paused"
    using w o p by (auto simp del: append.simps)
  from stopped_interval_is_excluded
    [where st = game_scored and cfg = hirn_v02
       and stop = "\<lparr>type = InputTypeLong, key = InputKeyOk\<rparr>"
       and go = "\<lparr>type = InputTypeLong, key = InputKeyOk\<rparr>"
       and ?idle1.0 = "[(None, 2000, 2050, rand_count)]"
       and ?idle2.0 = "[(None, 5000, 5050, rand_count)]"
       and ?t1.0 = 1000 and ?c1.0 = 1050 and ?r1.0 = rand_count
       and ?t2.0 = 4000 and ?c2.0 = 4050 and ?r2.0 = rand_count
       and ?t3.0 = 6000 and ?c3.0 = 6050 and ?r3.0 = rand_count,
     OF scored_fields(1) _ _ i]
  obtain b where b:
    "main_loop hirn_v02
        ((Some \<lparr>type = InputTypeLong, key = InputKeyOk\<rparr>, 1000, 1050, rand_count)
         # [(None, 2000, 2050, rand_count)]
         @ (Some \<lparr>type = InputTypeLong, key = InputKeyOk\<rparr>, 4000, 4050, rand_count)
         # [(None, 5000, 5050, rand_count)]
         @ [(Some \<lparr>type = InputTypePress, key = InputKeyBack\<rparr>, 6000, 6050, rand_count)])
        (True, game_scored) = Inr (True, b)"
    "state b = STATE_PAUSED"
    "elapsed_time b = elapsed_time game_scored + (1000 - start_time game_scored) + (6000 - 4000)"
    "unat (elapsed_time b) = (unat (1000::32 word) - unat (start_time game_scored))
        + (unat (6000::32 word) - unat (4000::32 word))"
    using w o by (auto simp del: append.simps)
  from a(3,4) have a': "elapsed_time a = 3000" "unat (elapsed_time a) = 3000"
    by (simp_all add: scored_fields)
  from b(3,4) have b': "elapsed_time b = 3000" "unat (elapsed_time b) = 3000"
    by (simp_all add: scored_fields)
  from a(1,2) a' b(1,2) b' f show ?thesis
    by (intro conjI exI [of _ a] exI [of _ b]) simp_all
qed

text \<open>
  The claim as it was stated fails for clock values that let the time run out: paused
  after 10 minutes for 100 seconds, the game is lost when the time check finds 20 minutes
  played, and Back 100 seconds later finds \<^verbatim>\<open>elapsed_time\<close> at the limit of 1200000 ms,
  not at 1300000 ms.
\<close>

theorem time_limit_ends_the_count:
  "reachable hirn_v02 game_start
   \<and> state game_start = STATE_PLAYING \<and> start_time game_start = 0 \<and> elapsed_time game_start = 0
   \<and> (0::32 word) \<le> 600000 \<and> (600000::32 word) \<le> 700000 \<and> (700000::32 word) \<le> 1400000
   \<and> main_loop hirn_v02
        [press InputKeyBack 600000, press InputKeyOk 700000,
         (None, 1300000, 1300000, rand_count), press InputKeyBack 1400000] (True, game_start)
      = Inr (True, game_start\<lparr>state := STATE_LOST, start_time := 700000, elapsed_time := 1200000\<rparr>)
   \<and> elapsed_time (game_start\<lparr>state := STATE_LOST, start_time := 700000, elapsed_time := 1200000\<rparr>)
        \<noteq> (600000 - 0) + (1400000 - 700000)"
  by (simp add: reachable_game_start press_def loop_body_def handle_event_def on_ok_def
      check_time_limit_def start_fields start_more_fields v02_fields)

subsection \<open>C9: a submitted guess stays in place\<close>

text \<open>
  Claim C9.  A submitted guess (OK while playing, the guess complete and different from the
  last one) is recorded as the next attempt, and \<^verbatim>\<open>current_guess\<close>, the cursor and the
  secret are afterwards exactly what they were.
\<close>

theorem submit_keeps_guess:
  assumes "sized_state cfg st" and "state st = STATE_PLAYING"
    and "is_guess_complete cfg st" and "is_guess_different cfg st"
    and "attempts_used st < MAX_ATTEMPTS cfg"
  shows "\<exists>st'. on_ok cfg tick rnd st = Inr st'
      \<and> attempts_used st' = attempts_used st + 1
      \<and> guess_history st' ! attempts_used st = current_guess st
      \<and> current_guess st' = current_guess st
      \<and> cursor_position st' = cursor_position st
      \<and> secret_code st' = secret_code st"
proof -
  from evaluate_guess_returns [OF assms(5), of tick] obtain st'
    where st': "evaluate_guess cfg tick st = Inr st'" by blast
  have "attempts_used st < length (guess_history st)"
    using assms(1,5) by (simp add: sized_state_def)
  with evaluate_guess_fields [OF st'] st' show ?thesis
    by (auto simp: submit_is_evaluate [OF assms(2-4)])
qed

theorem submit_keeps_guess_witness:
  "\<exists>st'. on_ok hirn_v02 20000 rand_count game_guess = Inr st'
      \<and> attempts_used st' = 1
      \<and> guess_history st' ! 0 = [2, 1, 3, 5]
      \<and> current_guess st' = [2, 1, 3, 5]
      \<and> cursor_position st' = 0
      \<and> secret_code st' = [1, 2, 3, 4]"
proof -
  have "attempts_used game_guess < MAX_ATTEMPTS hirn_v02" "cursor_position game_guess = 0"
    by (simp_all add: guess_fields hirn_v02_def game_guess_def game_start_def zeroed_def)
  with submit_keeps_guess [OF sized_game_guess guess_fields(1) guess_guard, of 20000 rand_count]
  show ?thesis by (simp add: guess_fields)
qed

subsection \<open>C10: the attempt counter stays within the history arrays\<close>

text \<open>
  Claim C10.  In every state at the head of the main loop \<^verbatim>\<open>attempts_used\<close> is the number
  of recorded attempts and is at most \<^verbatim>\<open>MAX_ATTEMPTS\<close>, the size of the two history
  arrays.  While playing it is smaller, so \<^verbatim>\<open>evaluate_guess\<close> stores its two rows inside
  the arrays and returns.  Once it has reached \<^verbatim>\<open>MAX_ATTEMPTS\<close> the game is won or lost,
  no guess can be submitted, and no input event writes to the history arrays.
\<close>

theorem attempts_within_bounds:
  assumes "well_configured cfg" and "reachable cfg st"
  shows "length (history st) = attempts_used st
       \<and> attempts_used st \<le> MAX_ATTEMPTS cfg
       \<and> length (guess_history st) = MAX_ATTEMPTS cfg
       \<and> length (feedback_history st) = MAX_ATTEMPTS cfg
       \<and> (state st = STATE_PLAYING \<longrightarrow>
            attempts_used st < MAX_ATTEMPTS cfg
            \<and> (\<exists>st'. evaluate_guess cfg tick st = Inr st'
                  \<and> attempts_used st' = attempts_used st + 1
                  \<and> attempts_used st' \<le> MAX_ATTEMPTS cfg))
       \<and> (attempts_used st = MAX_ATTEMPTS cfg \<longrightarrow>
            (state st = STATE_WON \<or> state st = STATE_LOST)
            \<and> \<not> (state st = STATE_PLAYING \<and> is_guess_complete cfg st \<and> is_guess_different cfg st)
            \<and> (\<forall>ev t rnd running running' st'.
                  handle_event cfg ev t rnd (running, st) = Inr (running', st') \<longrightarrow>
                    guess_history st' = guess_history st
                    \<and> feedback_history st' = feedback_history st))"
proof -
  from reachable_game_inv [OF assms] have inv: "game_inv cfg st" .
  then have sz: "length (guess_history st) = MAX_ATTEMPTS cfg"
      "length (feedback_history st) = MAX_ATTEMPTS cfg"
    and le: "attempts_used st \<le> MAX_ATTEMPTS cfg"
    and run: "state st = STATE_PLAYING \<or> state st = STATE_PAUSED \<or> state st = STATE_REVEAL
          \<longrightarrow> attempts_used st < MAX_ATTEMPTS cfg"
    by (simp_all add: game_inv_def sized_state_def)
  have h: "length (history st) = attempts_used st"
    using sz le by (simp add: history_def)
  have p: "state st = STATE_PLAYING \<longrightarrow>
            attempts_used st < MAX_ATTEMPTS cfg
            \<and> (\<exists>st'. evaluate_guess cfg tick st = Inr st'
                  \<and> attempts_used st' = attempts_used st + 1
                  \<and> attempts_used st' \<le> MAX_ATTEMPTS cfg)"
  proof
    assume "state st = STATE_PLAYING"
    with run have lt: "attempts_used st < MAX_ATTEMPTS cfg" by simp
    from evaluate_guess_returns [OF lt, of tick] obtain st'
      where st': "evaluate_guess cfg tick st = Inr st'" by blast
    from evaluate_guess_fields [OF st'] have "attempts_used st' = attempts_used st + 1" by blast
    with lt st' show "attempts_used st < MAX_ATTEMPTS cfg
            \<and> (\<exists>st'. evaluate_guess cfg tick st = Inr st'
                  \<and> attempts_used st' = attempts_used st + 1
                  \<and> attempts_used st' \<le> MAX_ATTEMPTS cfg)"
      by auto
  qed
  have f: "attempts_used st = MAX_ATTEMPTS cfg \<longrightarrow>
            (state st = STATE_WON \<or> state st = STATE_LOST)
            \<and> \<not> (state st = STATE_PLAYING \<and> is_guess_complete cfg st \<and> is_guess_different cfg st)
            \<and> (\<forall>ev t rnd running running' st'.
                  handle_event cfg ev t rnd (running, st) = Inr (running', st') \<longrightarrow>
                    guess_history st' = guess_history st
                    \<and> feedback_history st' = feedback_history st)"
  proof
    assume "attempts_used st = MAX_ATTEMPTS cfg"
    with run have e: "state st = STATE_WON \<or> state st = STATE_LOST"
      by (cases "state st") simp_all
    then have n: "state st \<noteq> STATE_PLAYING" by auto
    with e stopped_event_keeps_history [OF n]
    show "(state st = STATE_WON \<or> state st = STATE_LOST)
            \<and> \<not> (state st = STATE_PLAYING \<and> is_guess_complete cfg st \<and> is_guess_different cfg st)
            \<and> (\<forall>ev t rnd running running' st'.
                  handle_event cfg ev t rnd (running, st) = Inr (running', st') \<longrightarrow>
                    guess_history st' = guess_history st
                    \<and> feedback_history st' = feedback_history st)"
      by blast
  qed
  from h le sz p f show ?thesis by (intro conjI)
qed

theorem attempts_within_bounds_witness:
  "reachable tiny_game tiny_guess \<and> state tiny_guess = STATE_PLAYING
   \<and> length (history tiny_guess) = 0 \<and> attempts_used tiny_guess < MAX_ATTEMPTS tiny_game
   \<and> (\<exists>st'. evaluate_guess tiny_game 3000 tiny_guess = Inr st' \<and> attempts_used st' = 1)
   \<and> reachable tiny_game tiny_lost \<and> attempts_used tiny_lost = MAX_ATTEMPTS tiny_game
   \<and> length (history tiny_lost) = 1 \<and> state tiny_lost = STATE_LOST
   \<and> (\<exists>st'. handle_event tiny_game \<lparr>type = InputTypePress, key = InputKeyOk\<rparr> 4000 rand_count
              (True, tiny_lost) = Inr (True, st')
         \<and> guess_history st' = guess_history tiny_lost
         \<and> feedback_history st' = feedback_history tiny_lost)"
proof -
  note g = attempts_within_bounds [OF tiny_well_configured reachable_tiny(2), of 3000]
  note l = attempts_within_bounds [OF tiny_well_configured reachable_tiny(3), of 3000]
  have a: "length (history tiny_guess) = 0 \<and> attempts_used tiny_guess < MAX_ATTEMPTS tiny_game
      \<and> (\<exists>st'. evaluate_guess tiny_game 3000 tiny_guess = Inr st' \<and> attempts_used st' = 1)"
    using g by (simp add: tiny_guess_fields) blast
  have m: "attempts_used tiny_lost = MAX_ATTEMPTS tiny_game"
    by (simp add: tiny_lost_fields tiny_fields)
  from l m have k: "\<forall>ev t rnd running running' st'.
                  handle_event tiny_game ev t rnd (running, tiny_lost) = Inr (running', st') \<longrightarrow>
                    guess_history st' = guess_history tiny_lost
                    \<and> feedback_history st' = feedback_history tiny_lost"
    by blast
  have i: "\<exists>st'. new_round tiny_game 4000 rand_count tiny_lost = Inr st'"
  proof -
    have "COLOR_REPEAT tiny_game \<or> NUM_PEGS tiny_game \<le> NUM_COLORS tiny_game"
      "0 < NUM_COLORS tiny_game"
      by (simp_all add: tiny_fields)
    from generate_secret_code_returns [OF this(1) fair_rand_count [OF this(2)]]
    show ?thesis by (auto simp: new_round_def split: option.splits)
  qed
  then obtain st' where "handle_event tiny_game \<lparr>type = InputTypePress, key = InputKeyOk\<rparr> 4000
      rand_count (True, tiny_lost) = Inr (True, st')"
    by (auto simp: handle_event_def on_ok_def tiny_lost_fields)
  with k have b: "\<exists>st'. handle_event tiny_game \<lparr>type = InputTypePress, key = InputKeyOk\<rparr> 4000 rand_count
              (True, tiny_lost) = Inr (True, st')
         \<and> guess_history st' = guess_history tiny_lost
         \<and> feedback_history st' = feedback_history tiny_lost"
    by blast
  have "length (history tiny_lost) = 1" using l by (simp add: tiny_lost_fields)
  with a b m reachable_tiny(2,3) show ?thesis
    by (simp add: tiny_guess_fields tiny_lost_fields)
qed

end
